theory Spec2Isabelle
  imports Main "HOL-Library.AList"
begin

section \<open>Data model of \<open>cmake_converter/data_converter.py\<close>\<close>

text \<open>
  A configuration key is the Python tuple \<open>(configuration, architecture)\<close>; either slot
  may be \<open>None\<close>. Python dictionaries (\<open>dict\<close>, \<open>OrderedDict\<close>) are association lists in
  insertion order: \<open>map_of\<close> is the lookup, \<open>AList.update\<close> is the assignment
  \<open>d[k] = v\<close> (in place when the key is present, appended otherwise), and \<open>map fst\<close> is the
  iteration order of the keys. A value of a settings record is a string (such as
  \<open>'target_type'\<close>) or a list of strings (the mergeable settings). Records are values:
  two store entries never share one record object.
\<close>

type_synonym config_key = "string option \<times> string option"

datatype pyval = PStr string | PList "string list"

type_synonym settings_record = "(string \<times> pyval) list"

datatype error = KeyError | TypeError

datatype level = Info | Warn | Err

datatype msg_text = MultipleTargetTypes | AbsentSettings string "config_key set"

record utils =
  lists_of_settings_to_merge :: "string list"
  init_record :: "config_key \<Rightarrow> settings_record"

record conv_context =
  settings :: "(config_key \<times> settings_record) list"
  sln_configurations_map :: "(config_key \<times> config_key) list"
  configurations_to_parse :: "config_key set"
  current_setting :: config_key
  vcxproj_path :: string
  messages :: "(level \<times> msg_text) list"
  utils :: utils

datatype context_tree =
  ContextTree (ctx: conv_context) (file_contexts: "(string \<times> context_tree) list option")

text \<open>Iterating a Python sequence: a string yields its one-character strings.\<close>

fun seq_items :: "pyval \<Rightarrow> string list" where
  "seq_items (PStr s) = map (\<lambda>c. [c]) s"
| "seq_items (PList xs) = xs"

text \<open>A \<open>for\<close> loop whose body may raise: the first error ends the loop.\<close>

fun for_each :: "('a \<Rightarrow> 's \<Rightarrow> error + 's) \<Rightarrow> 'a list \<Rightarrow> 's \<Rightarrow> error + 's" where
  "for_each body [] s = Inr s"
| "for_each body (x # xs) s =
     (case body x s of Inl e \<Rightarrow> Inl e | Inr s' \<Rightarrow> for_each body xs s')"

text \<open>
  Modelled from the spec: \<open>utils.message\<close> is not part of the source file. The
  diagnostics sink accepts (severity, text) pairs; the model appends the pair to the
  context's log. The formatted text is kept as a constructor with its arguments.
\<close>

definition message :: "conv_context \<Rightarrow> msg_text \<Rightarrow> level \<Rightarrow> conv_context" where
  "message c t l = c\<lparr>messages := messages c @ [(l, t)]\<rparr>"

text \<open>
  Modelled from the spec: \<open>utils.init_context_current_setting\<close> is not part of the source
  file. The default-initialization hook stores a baseline record, produced from the key,
  under \<open>context.current_setting\<close>.
\<close>

definition init_context_current_setting :: "conv_context \<Rightarrow> conv_context" where
  "init_context_current_setting c =
     c\<lparr>settings := AList.update (current_setting c)
                      (init_record (utils c) (current_setting c)) (settings c)\<rparr>"

section \<open>The validator\<close>

text \<open>\<open>None in setting\<close> for a two-element tuple.\<close>

definition none_in :: "config_key \<Rightarrow> bool" where
  "none_in k = (fst k = None \<or> snd k = None)"

text \<open>
  One iteration of the loop of \<open>__verify_target_types\<close>: the record lookup raises
  \<open>KeyError\<close> without a \<open>'target_type'\<close> entry, and adding a list to a set raises
  \<open>TypeError\<close> (lists are unhashable).
\<close>

definition target_type_step ::
  "(config_key \<times> settings_record) list \<Rightarrow> config_key \<Rightarrow> string set \<Rightarrow> error + string set" where
  "target_type_step st setting target_types =
     (if none_in setting then Inr target_types
      else (case map_of st setting of
              None \<Rightarrow> Inl KeyError
            | Some r \<Rightarrow>
                (case map_of r ''target_type'' of
                   None \<Rightarrow> Inl KeyError
                 | Some (PList xs) \<Rightarrow> Inl TypeError
                 | Some (PStr s) \<Rightarrow> Inr (insert s target_types))))"

definition collect_target_types :: "conv_context \<Rightarrow> error + string set" where
  "collect_target_types c =
     for_each (target_type_step (settings c)) (map fst (settings c)) {}"

definition verify_target_types :: "conv_context \<Rightarrow> error + conv_context" where
  "verify_target_types c =
     (case collect_target_types c of
        Inl e \<Rightarrow> Inl e
      | Inr target_types \<Rightarrow>
          if card target_types > 1 then Inr (message c MultipleTargetTypes Warn)
          else Inr c)"

definition absent_settings :: "conv_context \<Rightarrow> config_key set" where
  "absent_settings c =
     Set.filter (\<lambda>setting. map_of (settings c) setting = None) (configurations_to_parse c)"

definition verify_configurations_to_parse :: "conv_context \<Rightarrow> bool \<times> conv_context" where
  "verify_configurations_to_parse c =
     (let absent = absent_settings c in
      if card absent > 0 then
        (False,
         message (c\<lparr>configurations_to_parse := configurations_to_parse c - absent\<rparr>)
           (AbsentSettings (vcxproj_path c) absent) Err)
      else (True, c))"

definition verify_data :: "conv_context \<Rightarrow> error + (bool \<times> conv_context)" where
  "verify_data c =
     (case verify_target_types c of
        Inl e \<Rightarrow> Inl e
      | Inr c' \<Rightarrow> Inr (verify_configurations_to_parse c'))"

section \<open>The merger\<close>

type_synonym items_to_merge = "(string \<times> (config_key \<times> string list) list) list"

type_synonym items_sets = "(string \<times> string set) list"

text \<open>The body of the intersection pass of \<open>merge_data_settings\<close>, for one \<open>sln_setting\<close>.\<close>

definition intersection_step ::
  "string \<Rightarrow> config_key \<Rightarrow> conv_context \<times> items_to_merge \<times> items_sets
     \<Rightarrow> error + (conv_context \<times> items_to_merge \<times> items_sets)" where
  "intersection_step key sln_setting st =
     (case st of (c, lists_of_items_to_merge, set_of_items) \<Rightarrow>
      (case map_of (sln_configurations_map c) sln_setting of
         None \<Rightarrow> Inl KeyError
       | Some mapped_setting \<Rightarrow>
          let mapped_arch = snd sln_setting;
              lists1 = (case mapped_arch of
                          None \<Rightarrow> lists_of_items_to_merge
                        | Some a \<Rightarrow>
                            if map_of lists_of_items_to_merge a = None
                            then AList.update a [] lists_of_items_to_merge
                            else lists_of_items_to_merge);
              c1 = (if map_of (settings c) (None, mapped_arch) = None
                    then init_context_current_setting
                           (c\<lparr>current_setting := (None, mapped_arch)\<rparr>)
                    else c)
          in
          (case map_of (settings c1) mapped_setting of
             None \<Rightarrow> Inl KeyError
           | Some r \<Rightarrow>
              (case map_of r key of
                 None \<Rightarrow> Inr (c1, lists1, set_of_items)
               | Some v \<Rightarrow>
                  if fst mapped_setting = None then Inr (c1, lists1, set_of_items)
                  else
                   (case mapped_arch of
                      None \<Rightarrow> Inl KeyError
                    | Some a \<Rightarrow>
                       (case map_of lists1 a of
                          None \<Rightarrow> Inl KeyError
                        | Some od \<Rightarrow>
                           let settings_list = seq_items v;
                               sets1 = (if od = []
                                        then AList.update a (set settings_list) set_of_items
                                        else set_of_items);
                               lists2 = AList.update a
                                          (AList.update sln_setting settings_list od) lists1
                           in
                           (case map_of sets1 a of
                              None \<Rightarrow> Inl KeyError
                            | Some s \<Rightarrow>
                               Inr (c1, lists2,
                                    AList.update a (s \<inter> set settings_list) sets1))))))))"

definition intersection_pass ::
  "string \<Rightarrow> conv_context \<Rightarrow> error + (conv_context \<times> items_to_merge \<times> items_sets)" where
  "intersection_pass key c =
     for_each (intersection_step key) (map fst (sln_configurations_map c)) (c, [], [])"

definition update_settings_at_context ::
  "conv_context \<Rightarrow> config_key \<Rightarrow> string \<Rightarrow> string list \<Rightarrow> error + conv_context" where
  "update_settings_at_context c sln_setting key settings_to_set =
     (case (if map_of (settings c) sln_setting = None then
              (case map_of (sln_configurations_map c) sln_setting of
                 None \<Rightarrow> Inl KeyError
               | Some m \<Rightarrow>
                  (case map_of (settings c) m of
                     None \<Rightarrow> Inl KeyError
                   | Some r \<Rightarrow> Inr (c\<lparr>settings := AList.update sln_setting r (settings c)\<rparr>)))
            else Inr c) of
        Inl e \<Rightarrow> Inl e
      | Inr c1 \<Rightarrow>
          let c2 = c1\<lparr>sln_configurations_map :=
                        AList.update sln_setting sln_setting (sln_configurations_map c1)\<rparr>
          in (case map_of (settings c2) sln_setting of
                None \<Rightarrow> Inl KeyError
              | Some r \<Rightarrow>
                  Inr (c2\<lparr>settings := AList.update sln_setting
                                         (AList.update key (PList settings_to_set) r)
                                         (settings c2)\<rparr>)))"

text \<open>
  The innermost loop of \<open>__remove_common_settings_from_context\<close>: the elements not in
  \<open>set_of_items[arch]\<close>. The set is looked up once per element, so a missing set raises
  only for a non-empty list.
\<close>

fun result_settings_list :: "string list \<Rightarrow> string set option \<Rightarrow> error + string list" where
  "result_settings_list [] so = Inr []"
| "result_settings_list (e # es) None = Inl KeyError"
| "result_settings_list (e # es) (Some s) = Inr (filter (\<lambda>x. x \<notin> s) (e # es))"

definition remove_common_step ::
  "string \<Rightarrow> string set option \<Rightarrow> config_key \<times> string list \<Rightarrow> conv_context \<Rightarrow> error + conv_context" where
  "remove_common_step key so entry c =
     (case result_settings_list (snd entry) so of
        Inl e \<Rightarrow> Inl e
      | Inr res \<Rightarrow> update_settings_at_context c (fst entry) key res)"

definition remove_common_arch ::
  "string \<Rightarrow> items_sets \<Rightarrow> string \<times> (config_key \<times> string list) list \<Rightarrow> conv_context
     \<Rightarrow> error + conv_context" where
  "remove_common_arch key set_of_items entry c =
     for_each (remove_common_step key (map_of set_of_items (fst entry))) (snd entry) c"

definition remove_common_settings_from_context ::
  "conv_context \<Rightarrow> items_to_merge \<Rightarrow> items_sets \<Rightarrow> string \<Rightarrow> error + conv_context" where
  "remove_common_settings_from_context c lists_of_items_to_merge set_of_items key =
     for_each (remove_common_arch key set_of_items) lists_of_items_to_merge c"

text \<open>
  \<open>__get_order_of_common_settings\<close>: \<open>order_pass\<close> is the inner \<open>for\<close> loop at index \<open>i\<close>
  (the candidate list and the count \<open>out_of_bounds\<close> are its state), \<open>order_loop\<close> is
  the \<open>while True\<close> loop.
\<close>

fun order_pass ::
  "nat \<Rightarrow> (config_key \<times> string list) list \<Rightarrow> string list \<times> nat \<Rightarrow> string list \<times> nat" where
  "order_pass i [] st = st"
| "order_pass i (entry # rest) (acc, out_of_bounds) =
     (if i < length (snd entry)
      then order_pass i rest (acc @ [snd entry ! i], out_of_bounds)
      else order_pass i rest (acc, out_of_bounds + 1))"

lemma order_pass_snd:
  "snd (order_pass i od (acc, n)) = n + length (filter (\<lambda>e. \<not> i < length (snd e)) od)"
  by (induction od arbitrary: acc n) auto

lemma order_pass_in_bounds:
  assumes "snd (order_pass i od (acc, 0)) \<noteq> length od"
  shows "i < fold max (map (\<lambda>e. length (snd e)) od) 0"
proof -
  have "length (filter (\<lambda>e. \<not> i < length (snd e)) od) \<noteq> length od"
    using assms by (simp add: order_pass_snd)
  then obtain e where e: "e \<in> set od" "i < length (snd e)"
    by (metis filter_True length_filter_le le_neq_implies_less)
  have "\<And>m. e \<in> set od \<Longrightarrow> length (snd e) \<le> fold max (map (\<lambda>e. length (snd e)) od) m"
       "\<And>m. m \<le> fold max (map (\<lambda>e. length (snd e)) od) m"
  proof (induction od)
    case Nil
    { case 1 then show ?case by simp }
    { case 2 show ?case by simp }
  next
    case (Cons x od)
    { case 1 then show ?case
        using Cons.IH(1)[of "max (length (snd x)) m"] Cons.IH(2)[of "max (length (snd x)) m"]
        by auto }
    { case 2 show ?case
        using Cons.IH(2)[of "max (length (snd x)) m"] by auto }
  qed
  with e show ?thesis by (meson less_le_trans)
qed

function order_loop ::
  "nat \<Rightarrow> (config_key \<times> string list) list \<Rightarrow> string list \<Rightarrow> string list" where
  "order_loop i od acc =
     (case order_pass i od (acc, 0) of
        (acc', out_of_bounds) \<Rightarrow>
          if out_of_bounds = length od then acc' else order_loop (i + 1) od acc')"
  by pat_completeness auto
termination
  apply (relation "measure (\<lambda>(i, od, acc). fold max (map (\<lambda>e. length (snd e)) od) 0 - i)")
   apply simp
  subgoal for i od acc x y
    using order_pass_in_bounds[of i od acc]
    by (metis (no_types, lifting) One_nat_def add.right_neutral add_Suc_right case_prod_conv
        diff_less_mono2 in_measure lessI snd_conv)
  done

declare order_loop.simps [simp del]

definition get_order_of_common_settings :: "items_to_merge \<Rightarrow> (string \<times> string list) list" where
  "get_order_of_common_settings lists_of_items_to_merge_arch =
     fold (\<lambda>entry merged_order_lists.
             AList.update (fst entry) (order_loop 0 (snd entry) []) merged_order_lists)
       lists_of_items_to_merge_arch []"

text \<open>
  \<open>__get_common_ordered_settings\<close>: \<open>common_loop\<close> is the loop over the candidate
  sequence of one architecture, with the \<open>break\<close> taken when the dictionary
  \<open>set_of_items\<close> is empty.
\<close>

fun common_loop ::
  "string \<Rightarrow> string list \<Rightarrow> string list \<times> items_sets \<Rightarrow> error + (string list \<times> items_sets)" where
  "common_loop arch [] st = Inr st"
| "common_loop arch (element # rest) (acc, set_of_items) =
     (case map_of set_of_items arch of
        None \<Rightarrow> Inl KeyError
      | Some s \<Rightarrow>
          if element \<in> s then
            (let acc' = acc @ [element];
                 set_of_items' = AList.update arch (s - {element}) set_of_items
             in if set_of_items' = [] then Inr (acc', set_of_items')
                else common_loop arch rest (acc', set_of_items'))
          else common_loop arch rest (acc, set_of_items))"

definition common_arch ::
  "string \<times> string list \<Rightarrow> (string \<times> string list) list \<times> items_sets
     \<Rightarrow> error + ((string \<times> string list) list \<times> items_sets)" where
  "common_arch entry st =
     (case st of (common_ordered_lists, set_of_items) \<Rightarrow>
        (case common_loop (fst entry) (snd entry) ([], set_of_items) of
           Inl e \<Rightarrow> Inl e
         | Inr (acc, set_of_items') \<Rightarrow>
             Inr (AList.update (fst entry) acc common_ordered_lists, set_of_items')))"

definition get_common_ordered_settings ::
  "(string \<times> string list) list \<Rightarrow> items_sets \<Rightarrow> error + (string \<times> string list) list" where
  "get_common_ordered_settings merged_order_list_arch set_of_items =
     (case for_each common_arch merged_order_list_arch ([], set_of_items) of
        Inl e \<Rightarrow> Inl e
      | Inr (common_ordered_lists, _) \<Rightarrow> Inr common_ordered_lists)"

text \<open>The last loop of the body of \<open>merge_data_settings\<close>: storing the common lists.\<close>

definition commit_step :: "string \<Rightarrow> string \<times> string list \<Rightarrow> conv_context \<Rightarrow> error + conv_context" where
  "commit_step key entry c =
     (case map_of (settings c) (None, Some (fst entry)) of
        None \<Rightarrow> Inl KeyError
      | Some r \<Rightarrow>
          Inr (c\<lparr>settings := AList.update (None, Some (fst entry))
                               (AList.update key (PList (snd entry)) r) (settings c),
                 sln_configurations_map :=
                   AList.update (None, Some (fst entry)) (None, Some (fst entry))
                     (sln_configurations_map c)\<rparr>))"

text \<open>The body of the loop over the mergeable keys.\<close>

definition merge_key :: "string \<Rightarrow> conv_context \<Rightarrow> error + conv_context" where
  "merge_key key c =
     (case intersection_pass key c of
        Inl e \<Rightarrow> Inl e
      | Inr (c1, lists_of_items_to_merge, set_of_items) \<Rightarrow>
         (case remove_common_settings_from_context c1 lists_of_items_to_merge set_of_items key of
            Inl e \<Rightarrow> Inl e
          | Inr c2 \<Rightarrow>
             (case get_common_ordered_settings
                     (get_order_of_common_settings lists_of_items_to_merge) set_of_items of
                Inl e \<Rightarrow> Inl e
              | Inr merged_settings \<Rightarrow> for_each (commit_step key) merged_settings c2)))"

definition merge_keys :: "conv_context \<Rightarrow> error + conv_context" where
  "merge_keys c = for_each merge_key (lists_of_settings_to_merge (utils c)) c"

text \<open>
  \<open>merge_data_settings\<close>: the loop over the keys, then the recursion into the per-file
  contexts, in the order of the dictionary \<open>file_contexts\<close>.
\<close>

fun merge_data_settings :: "context_tree \<Rightarrow> error + context_tree"
  and merge_file_contexts ::
    "(string \<times> context_tree) list \<Rightarrow> error + (string \<times> context_tree) list" where
  "merge_data_settings (ContextTree c fcs) =
     (case merge_keys c of
        Inl e \<Rightarrow> Inl e
      | Inr c' \<Rightarrow>
         (case fcs of
            None \<Rightarrow> Inr (ContextTree c' None)
          | Some files \<Rightarrow>
             (case merge_file_contexts files of
                Inl e \<Rightarrow> Inl e
              | Inr files' \<Rightarrow> Inr (ContextTree c' (Some files')))))"
| "merge_file_contexts [] = Inr []"
| "merge_file_contexts (entry # rest) =
     (case merge_data_settings (snd entry) of
        Inl e \<Rightarrow> Inl e
      | Inr t' \<Rightarrow>
         (case merge_file_contexts rest of
            Inl e \<Rightarrow> Inl e
          | Inr rest' \<Rightarrow> Inr ((fst entry, t') # rest')))"

section \<open>Properties of the validator\<close>

definition declared_at :: "(config_key \<times> settings_record) list \<Rightarrow> config_key \<Rightarrow> string set" where
  "declared_at st k =
     {s. \<not> none_in k \<and> (\<exists>r. map_of st k = Some r \<and> map_of r ''target_type'' = Some (PStr s))}"

definition declared_target_types :: "conv_context \<Rightarrow> string set" where
  "declared_target_types c = (\<Union>k \<in> fst ` set (settings c). declared_at (settings c) k)"

lemma target_type_step_eq:
  "target_type_step st k T = Inr T1 \<Longrightarrow> T1 = T \<union> declared_at st k"
  by (auto simp: target_type_step_def declared_at_def
           split: if_splits option.splits pyval.splits)

lemma target_types_loop:
  "for_each (target_type_step st) ks T = Inr T' \<Longrightarrow>
     T' = T \<union> (\<Union>k \<in> set ks. declared_at st k)"
proof (induction ks arbitrary: T)
  case Nil
  then show ?case by simp
next
  case (Cons k ks)
  from Cons.prems obtain T1 where s1: "target_type_step st k T = Inr T1"
      and r: "for_each (target_type_step st) ks T1 = Inr T'"
    by (auto split: sum.splits)
  show ?case
    using Cons.IH[OF r] target_type_step_eq[OF s1] by auto
qed

lemma collect_target_types_eq:
  "collect_target_types c = Inr T \<Longrightarrow> T = declared_target_types c"
  unfolding collect_target_types_def declared_target_types_def
  by (drule target_types_loop) simp

lemma absent_settings_finite:
  "finite (configurations_to_parse c) \<Longrightarrow> finite (absent_settings c)"
  by (simp add: absent_settings_def)

text \<open>
  C5: the completeness check returns \<open>False\<close> exactly when some requested configuration
  is absent from the settings store. When it fails, the context is the input with the absent
  configurations removed from \<open>configurations_to_parse\<close> and one error-level diagnostic
  appended that names the project and the missing configurations. When every requested
  configuration is present it returns \<open>True\<close> and leaves the context unchanged.
\<close>

theorem verify_configurations_to_parse_complete:
  assumes "finite (configurations_to_parse c)"
  shows "(fst (verify_configurations_to_parse c) = False
            \<longleftrightarrow> (\<exists>s \<in> configurations_to_parse c. map_of (settings c) s = None))
       \<and> (\<not> fst (verify_configurations_to_parse c) \<longrightarrow>
            snd (verify_configurations_to_parse c) =
              c\<lparr>configurations_to_parse :=
                   {s \<in> configurations_to_parse c. map_of (settings c) s \<noteq> None},
                 messages := messages c @
                   [(Err, AbsentSettings (vcxproj_path c)
                       {s \<in> configurations_to_parse c. map_of (settings c) s = None})]\<rparr>)
       \<and> (fst (verify_configurations_to_parse c) \<longrightarrow>
            snd (verify_configurations_to_parse c) = c)"
proof -
  have fin: "finite (absent_settings c)" using assms by (rule absent_settings_finite)
  have abs: "absent_settings c = {s \<in> configurations_to_parse c. map_of (settings c) s = None}"
    by (auto simp: absent_settings_def)
  have diff: "configurations_to_parse c - absent_settings c
                = {s \<in> configurations_to_parse c. map_of (settings c) s \<noteq> None}"
    unfolding abs by auto
  have pos: "0 < card (absent_settings c) \<longleftrightarrow> absent_settings c \<noteq> {}"
    using fin by (simp add: card_gt_0_iff)
  show ?thesis
  proof (cases "absent_settings c = {}")
    case True
    then show ?thesis
      using pos abs by (auto simp: verify_configurations_to_parse_def Let_def)
  next
    case False
    then have "0 < card (absent_settings c)" using pos by simp
    then show ?thesis
      using False diff abs
      by (auto simp: verify_configurations_to_parse_def Let_def message_def)
  qed
qed


text \<open>
  C7: the target-type check appends the warning exactly when the configurations without
  \<open>None\<close> in their key declare more than one distinct output-binary type, and changes
  nothing else. \<open>verify_data\<close> then returns the result of the completeness check, whose
  boolean is the one it has on the input context: the warning does not affect it.
\<close>

theorem verify_target_types_warning:
  assumes "verify_target_types c = Inr c1"
  shows "(1 < card (declared_target_types c) \<longrightarrow>
            c1 = c\<lparr>messages := messages c @ [(Warn, MultipleTargetTypes)]\<rparr>)
       \<and> (\<not> 1 < card (declared_target_types c) \<longrightarrow> c1 = c)
       \<and> verify_data c = Inr (verify_configurations_to_parse c1)
       \<and> fst (verify_configurations_to_parse c1) = fst (verify_configurations_to_parse c)"
proof -
  from assms obtain T where T: "collect_target_types c = Inr T"
    by (auto simp: verify_target_types_def split: sum.splits)
  then have Teq: "T = declared_target_types c" by (rule collect_target_types_eq)
  have c1: "c1 = (if 1 < card (declared_target_types c)
                  then c\<lparr>messages := messages c @ [(Warn, MultipleTargetTypes)]\<rparr> else c)"
    using assms T Teq by (auto simp: verify_target_types_def message_def)
  have "absent_settings c1 = absent_settings c"
    using c1 by (simp add: absent_settings_def)
  then have "fst (verify_configurations_to_parse c1) = fst (verify_configurations_to_parse c)"
    by (simp add: verify_configurations_to_parse_def Let_def)
  moreover have "verify_data c = Inr (verify_configurations_to_parse c1)"
    using assms by (simp add: verify_data_def)
  ultimately show ?thesis using c1 by simp
qed

lemma verify_target_types_cases:
  assumes "verify_target_types c = Inr c1"
  shows "\<exists>m1. c1 = c\<lparr>messages := messages c @ m1\<rparr>"
proof -
  from assms have "c1 = c \<or> c1 = c\<lparr>messages := messages c @ [(Warn, MultipleTargetTypes)]\<rparr>"
    by (auto simp: verify_target_types_def message_def split: sum.splits if_splits)
  then show ?thesis
  proof
    assume "c1 = c"
    then have "c1 = c\<lparr>messages := messages c @ []\<rparr>" by simp
    then show ?thesis by blast
  next
    assume "c1 = c\<lparr>messages := messages c @ [(Warn, MultipleTargetTypes)]\<rparr>"
    then show ?thesis by blast
  qed
qed

text \<open>
  C8: \<open>verify_data\<close> leaves the settings store as it is. The context it returns is the
  input with diagnostics appended to the log and \<open>configurations_to_parse\<close> reduced by
  absent configurations only.
\<close>

theorem verify_data_frame:
  assumes "verify_data c = Inr (ok, c')"
  shows "settings c' = settings c
       \<and> (\<exists>ms cs. c' = c\<lparr>configurations_to_parse := cs, messages := messages c @ ms\<rparr>
                  \<and> cs \<subseteq> configurations_to_parse c
                  \<and> configurations_to_parse c - cs \<subseteq> absent_settings c)"
proof -
  from assms obtain c1 where v1: "verify_target_types c = Inr c1"
      and v2: "verify_configurations_to_parse c1 = (ok, c')"
    by (auto simp: verify_data_def split: sum.splits)
  from verify_target_types_cases[OF v1] obtain m1
    where c1: "c1 = c\<lparr>messages := messages c @ m1\<rparr>" by blast
  have abs: "absent_settings c1 = absent_settings c"
    using c1 by (simp add: absent_settings_def)
  have "c' = c\<lparr>configurations_to_parse := configurations_to_parse c - absent_settings c,
                 messages := messages c @ (m1 @
                          [(Err, AbsentSettings (vcxproj_path c) (absent_settings c))])\<rparr>
        \<or> c' = c\<lparr>configurations_to_parse := configurations_to_parse c,
                    messages := messages c @ m1\<rparr>"
    using v2 abs c1
    by (auto simp: verify_configurations_to_parse_def Let_def message_def split: if_splits)
  then show ?thesis
  proof
    assume e: "c' = c\<lparr>configurations_to_parse := configurations_to_parse c - absent_settings c,
                 messages := messages c @ (m1 @
                          [(Err, AbsentSettings (vcxproj_path c) (absent_settings c))])\<rparr>"
    have "configurations_to_parse c - absent_settings c \<subseteq> configurations_to_parse c"
         "configurations_to_parse c - (configurations_to_parse c - absent_settings c)
            \<subseteq> absent_settings c"
      by auto
    with e show ?thesis by (intro conjI exI) (simp_all)
  next
    assume e: "c' = c\<lparr>configurations_to_parse := configurations_to_parse c,
                    messages := messages c @ m1\<rparr>"
    then show ?thesis by (intro conjI exI[of _ m1] exI[of _ "configurations_to_parse c"]) simp_all
  qed
qed

definition example_utils :: utils where
  "example_utils = \<lparr>lists_of_settings_to_merge = [''defines''], init_record = (\<lambda>k. [])\<rparr>"

definition pruning_example :: conv_context where
  "pruning_example =
     \<lparr>settings = [((Some ''A'', Some ''x64''), [(''target_type'', PStr ''exe'')]),
                  ((Some ''C'', Some ''x64''), [(''target_type'', PStr ''dll'')])],
      sln_configurations_map = [],
      configurations_to_parse =
        {(Some ''A'', Some ''x64''), (Some ''B'', Some ''x64''), (Some ''C'', Some ''x64'')},
      current_setting = (None, None),
      vcxproj_path = ''p.vcxproj'',
      messages = [],
      utils = example_utils\<rparr>"

definition complete_example :: conv_context where
  "complete_example =
     pruning_example\<lparr>configurations_to_parse :=
                         {(Some ''A'', Some ''x64''), (Some ''C'', Some ''x64'')}\<rparr>"

theorem verify_configurations_to_parse_complete_witness:
  "finite (configurations_to_parse pruning_example)
   \<and> fst (verify_configurations_to_parse pruning_example) = False
   \<and> snd (verify_configurations_to_parse pruning_example)
        = pruning_example
            \<lparr>configurations_to_parse := {(Some ''A'', Some ''x64''), (Some ''C'', Some ''x64'')},
             messages := [(Err, AbsentSettings ''p.vcxproj'' {(Some ''B'', Some ''x64'')})]\<rparr>
   \<and> finite (configurations_to_parse complete_example)
   \<and> fst (verify_configurations_to_parse complete_example) = True
   \<and> snd (verify_configurations_to_parse complete_example) = complete_example"
proof -
  have f1: "finite (configurations_to_parse pruning_example)"
    by (simp add: pruning_example_def)
  have f2: "finite (configurations_to_parse complete_example)"
    by (simp add: complete_example_def pruning_example_def)
  have absent: "{s \<in> configurations_to_parse pruning_example.
                   map_of (settings pruning_example) s = None} = {(Some ''B'', Some ''x64'')}"
    by (auto simp: pruning_example_def)
  have present: "{s \<in> configurations_to_parse pruning_example.
                   map_of (settings pruning_example) s \<noteq> None}
                 = {(Some ''A'', Some ''x64''), (Some ''C'', Some ''x64'')}"
    by (auto simp: pruning_example_def)
  have some: "\<exists>s \<in> configurations_to_parse pruning_example.
                 map_of (settings pruning_example) s = None"
    using absent by blast
  have none: "\<not> (\<exists>s \<in> configurations_to_parse complete_example.
                 map_of (settings complete_example) s = None)"
    by (simp add: complete_example_def pruning_example_def)
  have fields: "messages pruning_example = []" "vcxproj_path pruning_example = ''p.vcxproj''"
    by (simp_all add: pruning_example_def)
  have r1: "fst (verify_configurations_to_parse pruning_example) = False"
    using verify_configurations_to_parse_complete[OF f1] some by blast
  then have r2: "snd (verify_configurations_to_parse pruning_example)
        = pruning_example
            \<lparr>configurations_to_parse := {(Some ''A'', Some ''x64''), (Some ''C'', Some ''x64'')},
             messages := [(Err, AbsentSettings ''p.vcxproj'' {(Some ''B'', Some ''x64'')})]\<rparr>"
    using verify_configurations_to_parse_complete[OF f1] absent present fields by simp
  have r3: "fst (verify_configurations_to_parse complete_example) = True"
    using verify_configurations_to_parse_complete[OF f2] none by blast
  then have r4: "snd (verify_configurations_to_parse complete_example) = complete_example"
    using verify_configurations_to_parse_complete[OF f2] by blast
  show ?thesis using f1 f2 r1 r2 r3 r4 by blast
qed

lemma pruning_example_absent:
  "absent_settings (pruning_example\<lparr>messages := ms\<rparr>) = {(Some ''B'', Some ''x64'')}"
  by (auto simp: absent_settings_def pruning_example_def)

lemma pruning_example_target_types:
  "verify_target_types pruning_example
     = Inr (pruning_example\<lparr>messages := [(Warn, MultipleTargetTypes)]\<rparr>)"
  by (simp add: verify_target_types_def collect_target_types_def target_type_step_def
        none_in_def message_def pruning_example_def)

lemma pruning_example_verify_data:
  "verify_data pruning_example
     = Inr (False, pruning_example
         \<lparr>configurations_to_parse := {(Some ''A'', Some ''x64''), (Some ''C'', Some ''x64'')},
          messages := [(Warn, MultipleTargetTypes),
                       (Err, AbsentSettings ''p.vcxproj'' {(Some ''B'', Some ''x64'')})]\<rparr>)"
proof -
  have "configurations_to_parse pruning_example - {(Some ''B'', Some ''x64'')}
          = {(Some ''A'', Some ''x64''), (Some ''C'', Some ''x64'')}"
    by (auto simp: pruning_example_def)
  then show ?thesis
    by (simp add: verify_data_def pruning_example_target_types verify_configurations_to_parse_def
          pruning_example_absent message_def) (simp add: pruning_example_def)
qed

theorem verify_target_types_warning_witness:
  "verify_target_types pruning_example
     = Inr (pruning_example\<lparr>messages := [(Warn, MultipleTargetTypes)]\<rparr>)
   \<and> 1 < card (declared_target_types pruning_example)
   \<and> verify_data pruning_example
        = Inr (verify_configurations_to_parse
                 (pruning_example\<lparr>messages := [(Warn, MultipleTargetTypes)]\<rparr>))"
proof -
  have d: "declared_target_types pruning_example = {''exe'', ''dll''}"
    by (auto simp: declared_target_types_def declared_at_def none_in_def pruning_example_def)
  show ?thesis
    using verify_target_types_warning[OF pruning_example_target_types] pruning_example_target_types d
    by simp
qed

theorem verify_data_frame_witness:
  "verify_data pruning_example
     = Inr (False, pruning_example
         \<lparr>configurations_to_parse := {(Some ''A'', Some ''x64''), (Some ''C'', Some ''x64'')},
          messages := [(Warn, MultipleTargetTypes),
                       (Err, AbsentSettings ''p.vcxproj'' {(Some ''B'', Some ''x64'')})]\<rparr>)
   \<and> settings (pruning_example
         \<lparr>configurations_to_parse := {(Some ''A'', Some ''x64''), (Some ''C'', Some ''x64'')},
          messages := [(Warn, MultipleTargetTypes),
                       (Err, AbsentSettings ''p.vcxproj'' {(Some ''B'', Some ''x64'')})]\<rparr>)
       = settings pruning_example"
  using verify_data_frame[OF pruning_example_verify_data] pruning_example_verify_data by simp

section \<open>The common list and the scenario of the specification\<close>

text \<open>
  The filter of the candidate sequence with no early exit: the loop of
  \<open>common_loop\<close> without the \<open>break\<close>.
\<close>

fun common_loop_no_exit ::
  "string \<Rightarrow> string list \<Rightarrow> string list \<times> items_sets \<Rightarrow> error + (string list \<times> items_sets)" where
  "common_loop_no_exit arch [] st = Inr st"
| "common_loop_no_exit arch (element # rest) (acc, set_of_items) =
     (case map_of set_of_items arch of
        None \<Rightarrow> Inl KeyError
      | Some s \<Rightarrow>
          if element \<in> s
          then common_loop_no_exit arch rest
                 (acc @ [element], AList.update arch (s - {element}) set_of_items)
          else common_loop_no_exit arch rest (acc, set_of_items))"

definition common_arch_no_exit ::
  "string \<times> string list \<Rightarrow> (string \<times> string list) list \<times> items_sets
     \<Rightarrow> error + ((string \<times> string list) list \<times> items_sets)" where
  "common_arch_no_exit entry st =
     (case st of (common_ordered_lists, set_of_items) \<Rightarrow>
        (case common_loop_no_exit (fst entry) (snd entry) ([], set_of_items) of
           Inl e \<Rightarrow> Inl e
         | Inr (acc, set_of_items') \<Rightarrow>
             Inr (AList.update (fst entry) acc common_ordered_lists, set_of_items')))"

definition get_common_ordered_settings_no_exit ::
  "(string \<times> string list) list \<Rightarrow> items_sets \<Rightarrow> error + (string \<times> string list) list" where
  "get_common_ordered_settings_no_exit merged_order_list_arch set_of_items =
     (case for_each common_arch_no_exit merged_order_list_arch ([], set_of_items) of
        Inl e \<Rightarrow> Inl e
      | Inr (common_ordered_lists, _) \<Rightarrow> Inr common_ordered_lists)"

lemma common_loop_no_exit_eq:
  "common_loop arch xs st = common_loop_no_exit arch xs st"
proof (induction arch xs st rule: common_loop.induct)
  case (1 arch st)
  show ?case by simp
next
  case (2 arch element rest acc set_of_items)
  show ?case
  proof (cases "map_of set_of_items arch")
    case None
    then show ?thesis by simp
  next
    case (Some s)
    then show ?thesis using 2 by (simp add: Let_def)
  qed
qed

lemma common_arch_no_exit_eq: "common_arch = common_arch_no_exit"
  by (intro ext) (simp add: common_arch_def common_arch_no_exit_def common_loop_no_exit_eq)

text \<open>
  C9: the early exit of \<open>__get_common_ordered_settings\<close> tests the dictionary
  \<open>set_of_items\<close>, which still holds the key of the current architecture when the test
  runs, so the \<open>break\<close> is never taken: the function is equal to the one that walks the
  whole candidate sequence with no early exit.
\<close>

theorem get_common_ordered_settings_no_exit_eq:
  "get_common_ordered_settings merged_order_list_arch set_of_items
     = get_common_ordered_settings_no_exit merged_order_list_arch set_of_items"
  by (simp add: get_common_ordered_settings_def get_common_ordered_settings_no_exit_def
        common_arch_no_exit_eq)


theorem get_common_ordered_settings_no_exit_eq_witness:
  "get_common_ordered_settings
     [(''x64'', [''X'', ''Y'', ''Y'', ''X'', ''Z'', ''W''])] [(''x64'', {''X'', ''Y''})]
     = Inr [(''x64'', [''X'', ''Y''])]
   \<and> get_common_ordered_settings_no_exit
     [(''x64'', [''X'', ''Y'', ''Y'', ''X'', ''Z'', ''W''])] [(''x64'', {''X'', ''Y''})]
     = Inr [(''x64'', [''X'', ''Y''])]"
  using get_common_ordered_settings_no_exit_eq[of "[(''x64'', [''X'', ''Y'', ''Y'', ''X'', ''Z'', ''W''])]" "[(''x64'', {''X'', ''Y''})]"]
  by (simp add: get_common_ordered_settings_no_exit_def common_arch_no_exit_def)

lemma order_loop_unfold:
  "order_loop i od acc =
     (if snd (order_pass i od (acc, 0)) = length od then fst (order_pass i od (acc, 0))
      else order_loop (Suc i) od (fst (order_pass i od (acc, 0))))"
  by (subst order_loop.simps) (simp split: prod.splits)

text \<open>
  C2: two configurations of one architecture with the lists \<open>[X, Y, Z]\<close> and
  \<open>[Y, X, W]\<close> for a key. The intersection pass computes the set \<open>{X, Y}\<close>, the
  round-robin candidate sequence is \<open>[X, Y, Y, X, Z, W]\<close>, the common list is
  \<open>[X, Y]\<close>, and after the merge of the key the residual lists are \<open>[Z]\<close> and
  \<open>[W]\<close>, the common list standing under the wildcard key of the architecture.
\<close>

theorem merge_scenario:
  assumes names: "n1 \<noteq> n2"
    and st: "settings c = [((Some n1, Some a), [(key, PList [''X'', ''Y'', ''Z''])]),
                           ((Some n2, Some a), [(key, PList [''Y'', ''X'', ''W''])])]"
    and mp: "sln_configurations_map c = [((Some n1, Some a), (Some n1, Some a)),
                                         ((Some n2, Some a), (Some n2, Some a))]"
  shows "\<exists>c1 c2.
           intersection_pass key c
             = Inr (c1, [(a, [((Some n1, Some a), [''X'', ''Y'', ''Z'']),
                              ((Some n2, Some a), [''Y'', ''X'', ''W''])])],
                        [(a, {''X'', ''Y''})])
         \<and> get_order_of_common_settings
               [(a, [((Some n1, Some a), [''X'', ''Y'', ''Z'']),
                     ((Some n2, Some a), [''Y'', ''X'', ''W''])])]
             = [(a, [''X'', ''Y'', ''Y'', ''X'', ''Z'', ''W''])]
         \<and> get_common_ordered_settings
               [(a, [''X'', ''Y'', ''Y'', ''X'', ''Z'', ''W''])] [(a, {''X'', ''Y''})]
             = Inr [(a, [''X'', ''Y''])]
         \<and> merge_key key c = Inr c2
         \<and> settings c2 =
               [((Some n1, Some a), [(key, PList [''Z''])]),
                ((Some n2, Some a), [(key, PList [''W''])]),
                ((None, Some a),
                 AList.update key (PList [''X'', ''Y'']) (init_record (utils c) (None, Some a)))]"
proof -
  let ?L = "[(a, [((Some n1, Some a), [''X'', ''Y'', ''Z'']),
                  ((Some n2, Some a), [''Y'', ''X'', ''W''])])]"
  let ?c1 = "c\<lparr>current_setting := (None, Some a),
               settings := settings c @ [((None, Some a), init_record (utils c) (None, Some a))]\<rparr>"
  have sets: "{''X'', ''Y'', ''Z''} \<inter> {''Y'', ''X'', ''W''} = {''X'', ''Y''}" by auto
  have ip: "intersection_pass key c = Inr (?c1, ?L, [(a, {''X'', ''Y''})])"
    using names
    by (simp add: intersection_pass_def intersection_step_def st mp Let_def
          init_context_current_setting_def sets)
  have ord: "get_order_of_common_settings ?L = [(a, [''X'', ''Y'', ''Y'', ''X'', ''Z'', ''W''])]"
    by (simp add: get_order_of_common_settings_def order_loop_unfold)
  have com: "get_common_ordered_settings
               [(a, [''X'', ''Y'', ''Y'', ''X'', ''Z'', ''W''])] [(a, {''X'', ''Y''})]
             = Inr [(a, [''X'', ''Y''])]"
    by (simp add: get_common_ordered_settings_def common_arch_def Let_def)
  let ?s1 = "(Some n1, Some a)" and ?s2 = "(Some n2, Some a)"
  let ?c2 = "c\<lparr>current_setting := (None, Some a),
               settings := [(?s1, [(key, PList [''Z''])]), (?s2, [(key, PList [''W''])]),
                 ((None, Some a),
                   AList.update key (PList [''X'', ''Y'']) (init_record (utils c) (None, Some a)))],
               sln_configurations_map := [(?s1, ?s1), (?s2, ?s2), ((None, Some a), (None, Some a))]\<rparr>"
  have mk: "merge_key key c = Inr ?c2"
    using names
    by (simp add: merge_key_def ip ord com remove_common_settings_from_context_def
          remove_common_arch_def remove_common_step_def update_settings_at_context_def
          commit_step_def st mp Let_def)
  show ?thesis
    using ip ord com mk by (intro exI[of _ ?c1] exI[of _ ?c2]) simp
qed


definition scenario_utils :: utils where
  "scenario_utils = \<lparr>lists_of_settings_to_merge = [''defines''], init_record = (\<lambda>k. [])\<rparr>"

definition scenario_context :: conv_context where
  "scenario_context =
     \<lparr>settings = [((Some ''Debug'', Some ''x64''), [(''defines'', PList [''X'', ''Y'', ''Z''])]),
                  ((Some ''Release'', Some ''x64''), [(''defines'', PList [''Y'', ''X'', ''W''])])],
      sln_configurations_map =
        [((Some ''Debug'', Some ''x64''), (Some ''Debug'', Some ''x64'')),
         ((Some ''Release'', Some ''x64''), (Some ''Release'', Some ''x64''))],
      configurations_to_parse = {(Some ''Debug'', Some ''x64''), (Some ''Release'', Some ''x64'')},
      current_setting = (None, None),
      vcxproj_path = ''p.vcxproj'',
      messages = [],
      utils = scenario_utils\<rparr>"

theorem merge_scenario_witness:
  "''Debug'' \<noteq> ''Release''
   \<and> (\<exists>c2. merge_key ''defines'' scenario_context = Inr c2
          \<and> settings c2 =
               [((Some ''Debug'', Some ''x64''), [(''defines'', PList [''Z''])]),
                ((Some ''Release'', Some ''x64''), [(''defines'', PList [''W''])]),
                ((None, Some ''x64''), [(''defines'', PList [''X'', ''Y''])])])"
proof -
  have n: "''Debug'' \<noteq> ''Release''" by simp
  have st: "settings scenario_context =
              [((Some ''Debug'', Some ''x64''), [(''defines'', PList [''X'', ''Y'', ''Z''])]),
               ((Some ''Release'', Some ''x64''), [(''defines'', PList [''Y'', ''X'', ''W''])])]"
    by (simp add: scenario_context_def)
  have mp: "sln_configurations_map scenario_context =
              [((Some ''Debug'', Some ''x64''), (Some ''Debug'', Some ''x64'')),
               ((Some ''Release'', Some ''x64''), (Some ''Release'', Some ''x64''))]"
    by (simp add: scenario_context_def)
  have u: "init_record (utils scenario_context) (None, Some ''x64'') = []"
    by (simp add: scenario_context_def scenario_utils_def)
  from merge_scenario[OF n st mp] obtain c2 where
    "merge_key ''defines'' scenario_context = Inr c2"
    "settings c2 =
               [((Some ''Debug'', Some ''x64''), [(''defines'', PList [''Z''])]),
                ((Some ''Release'', Some ''x64''), [(''defines'', PList [''W''])]),
                ((None, Some ''x64''),
                 AList.update ''defines'' (PList [''X'', ''Y''])
                   (init_record (utils scenario_context) (None, Some ''x64'')))]"
    by blast
  then show ?thesis using n u by simp
qed

section \<open>The merge of one key, phase by phase\<close>

subsection \<open>Loops\<close>

lemma for_each_append:
  "for_each body (xs @ ys) s =
     (case for_each body xs s of Inl e \<Rightarrow> Inl e | Inr s' \<Rightarrow> for_each body ys s')"
  by (induction xs arbitrary: s) (auto split: sum.splits)

lemma for_each_invariant_aux:
  assumes step: "\<And>pre x suf t t'. xs = pre @ x # suf \<Longrightarrow> I pre t \<Longrightarrow> body x t = Inr t'
                   \<Longrightarrow> I (pre @ [x]) t'"
  shows "for_each body ys t = Inr s' \<Longrightarrow> xs = pre @ ys \<Longrightarrow> I pre t \<Longrightarrow> I xs s'"
proof (induction ys arbitrary: pre t)
  case Nil
  then show ?case by simp
next
  case (Cons y ys)
  from Cons.prems(1) obtain t' where b: "body y t = Inr t'" and r: "for_each body ys t' = Inr s'"
    by (auto split: sum.splits)
  have "I (pre @ [y]) t'" using step[OF Cons.prems(2) Cons.prems(3) b] .
  moreover have "xs = (pre @ [y]) @ ys" using Cons.prems(2) by simp
  ultimately show ?case using Cons.IH[OF r] by blast
qed

lemma for_each_invariant:
  assumes "for_each body xs s = Inr s'" and "I [] s"
    and "\<And>pre x suf t t'. xs = pre @ x # suf \<Longrightarrow> I pre t \<Longrightarrow> body x t = Inr t'
            \<Longrightarrow> I (pre @ [x]) t'"
  shows "I xs s'"
  using for_each_invariant_aux[where I = I and pre = "[]", OF assms(3) assms(1)] assms(2)
  by simp

subsection \<open>What a solution configuration contributes\<close>

definition lookup :: "('k \<times> ('a \<times> 'b) list) list \<Rightarrow> 'k \<Rightarrow> 'a \<Rightarrow> 'b option" where
  "lookup st k key = (case map_of st k of None \<Rightarrow> None | Some r \<Rightarrow> map_of r key)"

definition contribution :: "conv_context \<Rightarrow> string \<Rightarrow> config_key \<Rightarrow> string list option" where
  "contribution c key sln =
     (case map_of (sln_configurations_map c) sln of
        None \<Rightarrow> None
      | Some m \<Rightarrow>
          (case lookup (settings c) m key of
             None \<Rightarrow> None
           | Some v \<Rightarrow> if fst m = None then None else Some (seq_items v)))"

definition contributing ::
  "conv_context \<Rightarrow> string \<Rightarrow> string \<Rightarrow> config_key list \<Rightarrow> (config_key \<times> string list) list" where
  "contributing c key a slns =
     map (\<lambda>sln. (sln, the (contribution c key sln)))
       (filter (\<lambda>sln. snd sln = Some a \<and> contribution c key sln \<noteq> None) slns)"

definition contributions ::
  "conv_context \<Rightarrow> string \<Rightarrow> string \<Rightarrow> (config_key \<times> string list) list" where
  "contributions c key a = contributing c key a (map fst (sln_configurations_map c))"

definition common_values :: "conv_context \<Rightarrow> string \<Rightarrow> string \<Rightarrow> string set" where
  "common_values c key a = (\<Inter>e \<in> set (contributions c key a). set (snd e))"

subsection \<open>The intersection pass\<close>

definition step_ctx :: "config_key \<Rightarrow> conv_context \<Rightarrow> conv_context" where
  "step_ctx sln c =
     (if map_of (settings c) (None, snd sln) = None
      then init_context_current_setting (c\<lparr>current_setting := (None, snd sln)\<rparr>)
      else c)"

definition ensure_arch :: "string option \<Rightarrow> items_to_merge \<Rightarrow> items_to_merge" where
  "ensure_arch ao L =
     (case ao of None \<Rightarrow> L
      | Some a \<Rightarrow> if map_of L a = None then AList.update a [] L else L)"

lemma intersection_step_result:
  assumes "intersection_step key sln (c, L, S) = Inr (c', L', S')"
  shows "c' = step_ctx sln c"
    and "contribution c' key sln = None \<Longrightarrow> L' = ensure_arch (snd sln) L \<and> S' = S"
    and "contribution c' key sln = Some l \<Longrightarrow>
           \<exists>a od. snd sln = Some a \<and> map_of (ensure_arch (Some a) L) a = Some od
             \<and> L' = AList.update a (AList.update sln l od) (ensure_arch (Some a) L)
             \<and> (if od = [] then S' = AList.update a (set l) S
                 else \<exists>s. map_of S a = Some s \<and> S' = AList.update a (s \<inter> set l) S)"
    and "\<exists>m. map_of (sln_configurations_map c) sln = Some m \<and> map_of (settings c') m \<noteq> None"
proof -
  from assms obtain m where m: "map_of (sln_configurations_map c) sln = Some m"
    by (auto simp: intersection_step_def split: option.splits)
  have mc: "sln_configurations_map (step_ctx sln c) = sln_configurations_map c"
    by (simp add: step_ctx_def init_context_current_setting_def)
  from assms m obtain r where r: "map_of (settings (step_ctx sln c)) m = Some r"
    by (auto simp: intersection_step_def step_ctx_def Let_def split: option.splits)
  show c': "c' = step_ctx sln c"
    using assms m r
    by (auto simp: intersection_step_def step_ctx_def Let_def split: option.splits if_splits)
  show "\<exists>m. map_of (sln_configurations_map c) sln = Some m \<and> map_of (settings c') m \<noteq> None"
    using m r c' by simp
  have contr: "contribution c' key sln
                 = (case map_of r key of None \<Rightarrow> None
                    | Some v \<Rightarrow> if fst m = None then None else Some (seq_items v))"
    by (simp add: contribution_def c' mc m lookup_def r)
  {
    assume "contribution c' key sln = None"
    then show "L' = ensure_arch (snd sln) L \<and> S' = S"
      using assms m r unfolding contr
      by (auto simp: intersection_step_def step_ctx_def ensure_arch_def Let_def
          split: option.splits if_splits)
  }
  {
    assume "contribution c' key sln = Some l"
    then obtain v where v: "map_of r key = Some v" "fst m \<noteq> None" "l = seq_items v"
      unfolding contr by (auto split: option.splits if_splits)
    from assms m r v obtain a where a: "snd sln = Some a"
      by (auto simp: intersection_step_def step_ctx_def Let_def split: option.splits if_splits)
    from assms m r v a obtain od where od: "map_of (ensure_arch (Some a) L) a = Some od"
      by (auto simp: intersection_step_def step_ctx_def ensure_arch_def Let_def
          split: option.splits if_splits)
    have "L' = AList.update a (AList.update sln l od) (ensure_arch (Some a) L)"
      using assms m r v a od
      by (auto simp: intersection_step_def step_ctx_def ensure_arch_def Let_def
          split: option.splits if_splits)
    moreover have "if od = [] then S' = AList.update a (set l) S
                 else \<exists>s. map_of S a = Some s \<and> S' = AList.update a (s \<inter> set l) S"
      using assms m r v a od
      by (auto simp: intersection_step_def step_ctx_def ensure_arch_def Let_def update_conv'
          split: option.splits if_splits)
    ultimately show "\<exists>a od. snd sln = Some a \<and> map_of (ensure_arch (Some a) L) a = Some od
             \<and> L' = AList.update a (AList.update sln l od) (ensure_arch (Some a) L)
             \<and> (if od = [] then S' = AList.update a (set l) S
                 else \<exists>s. map_of S a = Some s \<and> S' = AList.update a (s \<inter> set l) S)"
      using a od by blast
  }
qed

lemma update_fresh: "k \<notin> fst ` set al \<Longrightarrow> AList.update k v al = al @ [(k, v)]"
  by (induction al) auto

lemma step_ctx_fields [simp]:
  "sln_configurations_map (step_ctx sln c) = sln_configurations_map c"
  "utils (step_ctx sln c) = utils c"
  "configurations_to_parse (step_ctx sln c) = configurations_to_parse c"
  "vcxproj_path (step_ctx sln c) = vcxproj_path c"
  "messages (step_ctx sln c) = messages c"
  by (simp_all add: step_ctx_def init_context_current_setting_def)

lemma step_ctx_settings:
  "settings (step_ctx sln c) =
     (if map_of (settings c) (None, snd sln) = None
      then settings c @ [((None, snd sln), init_record (utils c) (None, snd sln))]
      else settings c)"
proof -
  have "map_of (settings c) (None, snd sln) = None \<Longrightarrow> (None, snd sln) \<notin> fst ` set (settings c)"
    by (simp add: map_of_eq_None_iff)
  then show ?thesis
    by (simp add: step_ctx_def init_context_current_setting_def update_fresh)
qed

text \<open>
  The store after the hook has run for some solution configurations: the entries of
  \<open>c0\<close>, then baseline records under wildcard keys that were absent.
\<close>

definition seeded :: "conv_context \<Rightarrow> conv_context \<Rightarrow> bool" where
  "seeded c0 c \<longleftrightarrow>
     sln_configurations_map c = sln_configurations_map c0 \<and> utils c = utils c0
     \<and> configurations_to_parse c = configurations_to_parse c0
     \<and> vcxproj_path c = vcxproj_path c0 \<and> messages c = messages c0
     \<and> (\<exists>ext. settings c = settings c0 @ ext
            \<and> (\<forall>e \<in> set ext. fst (fst e) = None \<and> map_of (settings c0) (fst e) = None
                   \<and> snd e = init_record (utils c0) (fst e)))"

lemma seeded_refl: "seeded c c"
  by (simp add: seeded_def)

lemma seeded_step: "seeded c0 c \<Longrightarrow> seeded c0 (step_ctx sln c)"
proof -
  assume a: "seeded c0 c"
  then obtain ext where ext: "settings c = settings c0 @ ext"
      "\<forall>e \<in> set ext. fst (fst e) = None \<and> map_of (settings c0) (fst e) = None
                   \<and> snd e = init_record (utils c0) (fst e)"
    by (auto simp: seeded_def)
  show ?thesis
  proof (cases "map_of (settings c) (None, snd sln) = None")
    case False
    then have "step_ctx sln c = c" by (auto simp: step_ctx_def)
    then show ?thesis using a by simp
  next
    case True
    then have n0: "map_of (settings c0) (None, snd sln) = None"
      using ext(1) by (simp add: map_add_def split: option.splits)
    have "settings (step_ctx sln c)
            = settings c0 @ (ext @ [((None, snd sln), init_record (utils c0) (None, snd sln))])"
      using True a ext(1) by (simp add: step_ctx_settings seeded_def)
    moreover have "\<forall>e \<in> set (ext @ [((None, snd sln), init_record (utils c0) (None, snd sln))]).
                    fst (fst e) = None \<and> map_of (settings c0) (fst e) = None
                   \<and> snd e = init_record (utils c0) (fst e)"
      using ext(2) n0 by auto
    ultimately show ?thesis using a unfolding seeded_def by (simp only: step_ctx_fields) blast
  qed
qed

lemma seeded_present:
  assumes "seeded c0 c" and "map_of (settings c0) k = Some r"
  shows "map_of (settings c) k = Some r"
  using assms by (auto simp: seeded_def map_add_def split: option.splits)

lemma seeded_concrete:
  assumes "seeded c0 c" and "fst k \<noteq> None"
  shows "map_of (settings c) k = map_of (settings c0) k"
proof -
  from assms(1) obtain ext where ext: "settings c = settings c0 @ ext"
      "\<forall>e \<in> set ext. fst (fst e) = None" by (auto simp: seeded_def)
  have "map_of ext k = None"
    using ext(2) assms(2) by (force simp: map_of_eq_None_iff)
  then show ?thesis using ext(1) by (simp add: map_add_def split: option.splits)
qed

lemma seeded_contribution:
  assumes "seeded c0 c"
  shows "contribution c key sln = contribution c0 key sln"
proof (cases "map_of (sln_configurations_map c0) sln")
  case None
  then show ?thesis using assms by (simp add: contribution_def seeded_def)
next
  case (Some m)
  show ?thesis
  proof (cases "fst m = None")
    case True
    then show ?thesis using assms Some
      by (simp add: contribution_def seeded_def split: option.splits)
  next
    case False
    then show ?thesis
      using assms Some seeded_concrete[OF assms False]
      by (simp add: contribution_def seeded_def lookup_def)
  qed
qed

lemma seeded_trans_step:
  assumes "seeded c0 c" and "intersection_step key sln (c, L, S) = Inr (c', L', S')"
  shows "seeded c0 c'"
  using intersection_step_result(1)[OF assms(2)] seeded_step[OF assms(1)] by simp

definition archs :: "config_key list \<Rightarrow> string set" where
  "archs slns = {a. Some a \<in> snd ` set slns}"

lemma archs_snoc: "archs (pre @ [sln]) = archs pre \<union> (case snd sln of None \<Rightarrow> {} | Some a \<Rightarrow> {a})"
  by (auto simp: archs_def split: option.splits)

lemma contributing_snoc:
  "contributing c key a (pre @ [sln]) =
     contributing c key a pre @
       (if snd sln = Some a \<and> contribution c key sln \<noteq> None
        then [(sln, the (contribution c key sln))] else [])"
  by (simp add: contributing_def)

lemma contributing_keys: "fst ` set (contributing c key a pre) \<subseteq> set pre"
  by (auto simp: contributing_def)

lemma contributing_no_arch: "a \<notin> archs pre \<Longrightarrow> contributing c key a pre = []"
  by (auto simp: contributing_def archs_def filter_empty_conv image_iff)

lemma contributing_arch: "e \<in> set (contributing c key a pre) \<Longrightarrow> snd (fst e) = Some a"
  by (auto simp: contributing_def)

lemma contributing_mem:
  "(sln, l) \<in> set (contributing c key a pre)
     \<longleftrightarrow> sln \<in> set pre \<and> snd sln = Some a \<and> contribution c key sln = Some l"
  by (auto simp: contributing_def)

lemma contributing_distinct:
  "distinct pre \<Longrightarrow> distinct (map fst (contributing c key a pre))"
  by (simp add: contributing_def comp_def distinct_map_filter)

definition pass_inv ::
  "conv_context \<Rightarrow> string \<Rightarrow> config_key list
     \<Rightarrow> conv_context \<times> items_to_merge \<times> items_sets \<Rightarrow> bool" where
  "pass_inv c0 key pre st \<longleftrightarrow>
     (case st of (c, L, S) \<Rightarrow>
        seeded c0 c
      \<and> (\<forall>sln \<in> set pre. map_of (settings c) (None, snd sln) \<noteq> None)
      \<and> (\<forall>sln \<in> set pre. \<exists>m. map_of (sln_configurations_map c0) sln = Some m
                                 \<and> map_of (settings c) m \<noteq> None)
      \<and> (\<forall>sln \<in> set pre. contribution c0 key sln = None \<or> snd sln \<noteq> None)
      \<and> distinct (map fst L)
      \<and> (\<forall>a. map_of L a = (if a \<in> archs pre then Some (contributing c0 key a pre) else None))
      \<and> (\<forall>a. contributing c0 key a pre \<noteq> [] \<longrightarrow>
             map_of S a = Some (\<Inter>e \<in> set (contributing c0 key a pre). set (snd e))))"

lemma ensure_arch_distinct: "distinct (map fst L) \<Longrightarrow> distinct (map fst (ensure_arch ao L))"
  by (auto simp: ensure_arch_def distinct_update split: option.splits)

lemma ensure_arch_map_of:
  "map_of (ensure_arch ao L) a =
     (if ao = Some a \<and> map_of L a = None then Some [] else map_of L a)"
  by (auto simp: ensure_arch_def update_conv' split: option.splits)

lemma step_ctx_seeds: "map_of (settings (step_ctx sln c)) (None, snd sln) \<noteq> None"
  by (auto simp: step_ctx_def init_context_current_setting_def update_conv')

lemma step_ctx_keeps:
  "map_of (settings c) k \<noteq> None \<Longrightarrow> map_of (settings (step_ctx sln c)) k \<noteq> None"
  by (auto simp: step_ctx_def init_context_current_setting_def update_conv')

lemma pass_inv_step:
  assumes inv: "pass_inv c0 key pre (c, L, S)"
    and fresh: "sln \<notin> set pre"
    and step: "intersection_step key sln (c, L, S) = Inr (c', L', S')"
  shows "pass_inv c0 key (pre @ [sln]) (c', L', S')"
proof -
  from inv have sd: "seeded c0 c"
      and pres: "\<forall>s \<in> set pre. map_of (settings c) (None, snd s) \<noteq> None"
      and tgt: "\<forall>s \<in> set pre. \<exists>m. map_of (sln_configurations_map c0) s = Some m
                                 \<and> map_of (settings c) m \<noteq> None"
      and har: "\<forall>s \<in> set pre. contribution c0 key s = None \<or> snd s \<noteq> None"
      and dL: "distinct (map fst L)"
      and mL: "\<And>a. map_of L a = (if a \<in> archs pre then Some (contributing c0 key a pre) else None)"
      and mS: "\<And>a. contributing c0 key a pre \<noteq> [] \<Longrightarrow>
                  map_of S a = Some (\<Inter>e \<in> set (contributing c0 key a pre). set (snd e))"
    by (auto simp: pass_inv_def)
  note res = intersection_step_result[OF step]
  have c': "c' = step_ctx sln c" by (rule res(1))
  have sd': "seeded c0 c'" using sd c' by (simp add: seeded_step)
  have pres': "\<forall>s \<in> set (pre @ [sln]). map_of (settings c') (None, snd s) \<noteq> None"
    using pres c' step_ctx_seeds[of sln c] step_ctx_keeps[of c _ sln] by auto
  have "sln_configurations_map c = sln_configurations_map c0"
    using sd by (simp add: seeded_def)
  then have tgt': "\<forall>s \<in> set (pre @ [sln]). \<exists>m. map_of (sln_configurations_map c0) s = Some m
                                 \<and> map_of (settings c') m \<noteq> None"
    using tgt res(4) c' step_ctx_keeps[of c _ sln] by auto
  have co: "contribution c' key sln = contribution c0 key sln"
    using sd' by (rule seeded_contribution)
  have mL1: "\<And>a. map_of (ensure_arch (snd sln) L) a
               = (if a \<in> archs (pre @ [sln]) then Some (contributing c0 key a pre) else None)"
    using contributing_no_arch[of _ pre c0 key]
    by (auto simp: ensure_arch_map_of mL archs_snoc split: option.splits)
  show ?thesis
  proof (cases "contribution c0 key sln")
    case None
    then have L': "L' = ensure_arch (snd sln) L" and S': "S' = S"
      using res(2) co by simp_all
    have cs: "\<And>a. contributing c0 key a (pre @ [sln]) = contributing c0 key a pre"
      using None by (simp add: contributing_snoc)
    show ?thesis
      unfolding pass_inv_def
      using sd' pres' tgt' har None ensure_arch_distinct[OF dL] mL1 mS
      by (simp add: L' S' cs)
  next
    case (Some l)
    then obtain a od where a: "snd sln = Some a"
        and od: "map_of (ensure_arch (Some a) L) a = Some od"
        and L': "L' = AList.update a (AList.update sln l od) (ensure_arch (Some a) L)"
        and S': "if od = [] then S' = AList.update a (set l) S
                 else \<exists>s. map_of S a = Some s \<and> S' = AList.update a (s \<inter> set l) S"
      using res(3)[of l] co by auto
    have od_eq: "od = contributing c0 key a pre"
      using od mL1[of a] a by (simp add: archs_snoc)
    have "sln \<notin> fst ` set od"
      using fresh contributing_keys[of c0 key a pre] od_eq by auto
    then have upd: "AList.update sln l od = od @ [(sln, l)]" by (rule update_fresh)
    have cs_a: "contributing c0 key a (pre @ [sln]) = od @ [(sln, l)]"
      using Some a od_eq by (simp add: contributing_snoc)
    have cs_other: "\<And>b. b \<noteq> a \<Longrightarrow> contributing c0 key b (pre @ [sln]) = contributing c0 key b pre"
      using a by (simp add: contributing_snoc)
    have dL': "distinct (map fst L')"
      unfolding L' by (intro distinct_update ensure_arch_distinct dL)
    have mL': "\<And>b. map_of L' b
                 = (if b \<in> archs (pre @ [sln]) then Some (contributing c0 key b (pre @ [sln]))
                    else None)"
    proof -
      fix b
      show "map_of L' b
                 = (if b \<in> archs (pre @ [sln]) then Some (contributing c0 key b (pre @ [sln]))
                    else None)"
      proof (cases "b = a")
        case True
        then show ?thesis using a by (simp add: L' update_conv' upd cs_a archs_snoc)
      next
        case False
        then show ?thesis using mL1[of b] a by (simp add: L' update_conv' cs_other)
      qed
    qed
    have mS': "\<And>b. contributing c0 key b (pre @ [sln]) \<noteq> [] \<Longrightarrow>
                  map_of S' b = Some (\<Inter>e \<in> set (contributing c0 key b (pre @ [sln])). set (snd e))"
    proof -
      fix b
      assume ne: "contributing c0 key b (pre @ [sln]) \<noteq> []"
      show "map_of S' b = Some (\<Inter>e \<in> set (contributing c0 key b (pre @ [sln])). set (snd e))"
      proof (cases "b = a")
        case False
        have "map_of S' b = map_of S b"
          using S' False by (auto simp: update_conv' split: if_splits)
        then show ?thesis using mS[of b] ne cs_other[OF False] by simp
      next
        case True
        show ?thesis
        proof (cases "od = []")
          case True
          then have "S' = AList.update a (set l) S" using S' by simp
          then show ?thesis using \<open>b = a\<close> True by (simp add: update_conv' cs_a)
        next
          case False
          then obtain s where s: "map_of S a = Some s" "S' = AList.update a (s \<inter> set l) S"
            using S' by auto
          have "s = (\<Inter>e \<in> set od. set (snd e))"
            using mS[of a] False od_eq s(1) by simp
          then show ?thesis using \<open>b = a\<close> s(2) by (auto simp: update_conv' cs_a)
        qed
      qed
    qed
    show ?thesis
      unfolding pass_inv_def using sd' pres' tgt' har a dL' mL' mS' by simp
  qed
qed

lemma pass_inv_init: "pass_inv c key [] (c, [], [])"
  by (simp add: pass_inv_def seeded_refl archs_def contributing_def)

lemma intersection_pass_inv:
  assumes "intersection_pass key c = Inr st"
    and "distinct (map fst (sln_configurations_map c))"
  shows "pass_inv c key (map fst (sln_configurations_map c)) st"
proof (rule for_each_invariant[where I = "pass_inv c key" and body = "intersection_step key"
      and s = "(c, [], [])"])
  show "for_each (intersection_step key) (map fst (sln_configurations_map c)) (c, [], []) = Inr st"
    using assms(1) by (simp add: intersection_pass_def)
  show "pass_inv c key [] (c, [], [])" by (rule pass_inv_init)
next
  fix pre x suf t t'
  assume xs: "map fst (sln_configurations_map c) = pre @ x # suf"
    and i: "pass_inv c key pre t" and b: "intersection_step key x t = Inr t'"
  have "x \<notin> set pre" using assms(2) xs by auto
  then show "pass_inv c key (pre @ [x]) t'"
    using pass_inv_step[of c key pre "fst t" "fst (snd t)" "snd (snd t)" x
        "fst t'" "fst (snd t')" "snd (snd t')"] i b
    by simp
qed

subsection \<open>The residual rewrite\<close>

definition base_record :: "conv_context \<Rightarrow> config_key \<Rightarrow> settings_record option" where
  "base_record c sln =
     (case map_of (settings c) sln of
        Some r \<Rightarrow> Some r
      | None \<Rightarrow> (case map_of (sln_configurations_map c) sln of
                   None \<Rightarrow> None
                 | Some m \<Rightarrow> map_of (settings c) m))"

lemma update_settings_at_context_eq:
  "update_settings_at_context c sln key res =
     (case base_record c sln of
        None \<Rightarrow> Inl KeyError
      | Some r \<Rightarrow>
          Inr (c\<lparr>settings := AList.update sln (AList.update key (PList res) r) (settings c),
                 sln_configurations_map :=
                   AList.update sln sln (sln_configurations_map c)\<rparr>))"
  by (auto simp: update_settings_at_context_def base_record_def Let_def update_conv'
      split: option.splits)

definition rewrite_step :: "string \<Rightarrow> config_key \<times> string list \<Rightarrow> conv_context \<Rightarrow> error + conv_context" where
  "rewrite_step key e c = update_settings_at_context c (fst e) key (snd e)"

definition residuals :: "items_sets \<Rightarrow> items_to_merge \<Rightarrow> (config_key \<times> string list) list" where
  "residuals S L =
     concat (map (\<lambda>g. map (\<lambda>e. (fst e, filter (\<lambda>x. x \<notin> the (map_of S (fst g))) (snd e))) (snd g)) L)"

lemma result_settings_list_Some: "result_settings_list l (Some s) = Inr (filter (\<lambda>x. x \<notin> s) l)"
  by (cases l) simp_all

lemma remove_common_arch_flat:
  assumes "od \<noteq> [] \<Longrightarrow> map_of S a \<noteq> None"
  shows "remove_common_arch key S (a, od) c
           = for_each (rewrite_step key)
               (map (\<lambda>e. (fst e, filter (\<lambda>x. x \<notin> the (map_of S a)) (snd e))) od) c"
proof (cases od)
  case Nil
  then show ?thesis by (simp add: remove_common_arch_def)
next
  case (Cons e es)
  with assms obtain s where s: "map_of S a = Some s" by auto
  have "for_each (remove_common_step key (Some s)) xs c
          = for_each (rewrite_step key) (map (\<lambda>e. (fst e, filter (\<lambda>x. x \<notin> s) (snd e))) xs) c"
    for xs c
    by (induction xs arbitrary: c)
       (simp_all add: remove_common_step_def rewrite_step_def result_settings_list_Some
          split: sum.splits)
  then show ?thesis by (simp add: remove_common_arch_def s)
qed

lemma remove_common_flat:
  assumes "\<forall>g \<in> set L. snd g \<noteq> [] \<longrightarrow> map_of S (fst g) \<noteq> None"
  shows "remove_common_settings_from_context c L S key
           = for_each (rewrite_step key) (residuals S L) c"
  using assms
proof (induction L arbitrary: c)
  case Nil
  then show ?case by (simp add: remove_common_settings_from_context_def residuals_def)
next
  case (Cons g L)
  have g: "remove_common_arch key S g c
             = for_each (rewrite_step key)
                 (map (\<lambda>e. (fst e, filter (\<lambda>x. x \<notin> the (map_of S (fst g))) (snd e))) (snd g)) c"
    using remove_common_arch_flat[of "snd g" S "fst g" key c] Cons.prems by simp
  have IH: "\<And>c. for_each (remove_common_arch key S) L c
                 = for_each (rewrite_step key) (residuals S L) c"
    using Cons.IH Cons.prems by (simp add: remove_common_settings_from_context_def)
  show ?case
    by (simp add: remove_common_settings_from_context_def residuals_def for_each_append g
          IH[unfolded residuals_def] split: sum.splits)
qed

definition remap :: "'k set \<Rightarrow> ('k \<times> 'k) list \<Rightarrow> ('k \<times> 'k) list" where
  "remap A xs = map (\<lambda>e. (fst e, if fst e \<in> A then fst e else snd e)) xs"

lemma remap_keys [simp]: "map fst (remap A xs) = map fst xs"
  by (simp add: remap_def comp_def)

lemma remap_empty [simp]: "remap {} xs = xs"
  by (simp add: remap_def)

lemma map_of_remap:
  "map_of (remap A xs) k = map_option (\<lambda>m. if k \<in> A then k else m) (map_of xs k)"
  by (induction xs) (auto simp: remap_def)

lemma update_remap:
  "distinct (map fst xs) \<Longrightarrow> k \<in> fst ` set xs \<Longrightarrow>
     AList.update k k (remap A xs) = remap (insert k A) xs"
proof (induction xs)
  case Nil
  then show ?case by simp
next
  case (Cons x xs)
  show ?case
  proof (cases "fst x = k")
    case True
    then have "k \<notin> fst ` set xs" using Cons.prems(1) by auto
    then have "remap A xs = remap (insert k A) xs" by (auto simp: remap_def)
    then show ?thesis using True by (simp add: remap_def)
  next
    case False
    then show ?thesis using Cons by (auto simp: remap_def)
  qed
qed

definition resolved :: "conv_context \<Rightarrow> config_key \<Rightarrow> settings_record option" where
  "resolved c sln =
     (case map_of (sln_configurations_map c) sln of
        None \<Rightarrow> None
      | Some m \<Rightarrow> map_of (settings c) m)"

text \<open>
  Well-formed input: the keys of the configuration map are distinct (it is a
  dictionary); a wildcard key of the map resolves to a wildcard key; and a solution
  configuration that has a record of its own in the store resolves to itself, or to a
  wildcard key.
\<close>

definition well_formed :: "conv_context \<Rightarrow> bool" where
  "well_formed c \<longleftrightarrow>
     distinct (map fst (sln_configurations_map c))
     \<and> list_all (\<lambda>e. fst (snd e) = None
                      \<or> (fst (fst e) \<noteq> None
                          \<and> (map_of (settings c) (fst e) = None \<or> snd e = fst e)))
         (sln_configurations_map c)"

lemma well_formedD:
  assumes "well_formed c" and "map_of (sln_configurations_map c) sln = Some m" and "fst m \<noteq> None"
  shows "fst sln \<noteq> None" and "map_of (settings c) sln \<noteq> None \<Longrightarrow> m = sln"
proof -
  from assms(2) have "(sln, m) \<in> set (sln_configurations_map c)" by (rule map_of_SomeD)
  with assms(1,3) show "fst sln \<noteq> None" and "map_of (settings c) sln \<noteq> None \<Longrightarrow> m = sln"
    by (auto simp: well_formed_def list_all_iff)
qed

text \<open>The state while the residual lists of the entries \<open>P\<close> have been written.\<close>

definition rewrite_inv ::
  "conv_context \<Rightarrow> string \<Rightarrow> (config_key \<times> string list) list \<Rightarrow> conv_context \<Rightarrow> bool" where
  "rewrite_inv c1 key P c \<longleftrightarrow>
     sln_configurations_map c = remap (fst ` set P) (sln_configurations_map c1)
     \<and> (\<forall>k. k \<notin> fst ` set P \<longrightarrow> map_of (settings c) k = map_of (settings c1) k)
     \<and> (\<forall>e \<in> set P. \<exists>r' r. map_of (settings c) (fst e) = Some r' \<and> resolved c1 (fst e) = Some r
            \<and> map_of r' = (map_of r)(key \<mapsto> PList (snd e)))
     \<and> utils c = utils c1 \<and> configurations_to_parse c = configurations_to_parse c1
     \<and> vcxproj_path c = vcxproj_path c1 \<and> messages c = messages c1
     \<and> current_setting c = current_setting c1"

definition contributes :: "conv_context \<Rightarrow> config_key \<Rightarrow> bool" where
  "contributes c sln \<longleftrightarrow>
     (\<exists>m. map_of (sln_configurations_map c) sln = Some m \<and> fst m \<noteq> None
          \<and> map_of (settings c) m \<noteq> None)"

lemma rewrite_inv_step:
  assumes wf: "well_formed c1"
    and inv: "rewrite_inv c1 key P c"
    and fresh: "fst e \<notin> fst ` set P"
    and ce: "contributes c1 (fst e)"
    and cP: "\<forall>p \<in> set P. contributes c1 (fst p)"
    and step: "rewrite_step key e c = Inr c'"
  shows "rewrite_inv c1 key (P @ [e]) c'"
proof -
  obtain sln res where e: "e = (sln, res)" by (cases e)
  from ce e obtain m rm where m: "map_of (sln_configurations_map c1) sln = Some m"
      and fm: "fst m \<noteq> None" and rm: "map_of (settings c1) m = Some rm"
    by (auto simp: contributes_def)
  from inv have j1: "sln_configurations_map c = remap (fst ` set P) (sln_configurations_map c1)"
      and j2: "\<And>k. k \<notin> fst ` set P \<Longrightarrow> map_of (settings c) k = map_of (settings c1) k"
      and j3: "\<And>p. p \<in> set P \<Longrightarrow> \<exists>r' r. map_of (settings c) (fst p) = Some r'
                  \<and> resolved c1 (fst p) = Some r \<and> map_of r' = (map_of r)(key \<mapsto> PList (snd p))"
      and j4: "utils c = utils c1" "configurations_to_parse c = configurations_to_parse c1"
              "vcxproj_path c = vcxproj_path c1" "messages c = messages c1"
              "current_setting c = current_setting c1"
    by (auto simp: rewrite_inv_def)
  have res_sln: "resolved c1 sln = Some rm" by (simp add: resolved_def m rm)
  have nP: "sln \<notin> fst ` set P" using fresh e by simp
  have mc: "map_of (sln_configurations_map c) sln = Some m"
    using nP by (simp add: j1 map_of_remap m)
  have base: "\<exists>b. base_record c sln = Some b \<and> map_of (AList.update key (PList res) b)
                    = (map_of rm)(key \<mapsto> PList res)"
  proof (cases "map_of (settings c) sln")
    case (Some r)
    then have "map_of (settings c1) sln = Some r" using j2[OF nP] by simp
    then have "m = sln" using well_formedD(2)[OF wf m fm] by simp
    then have "r = rm" using \<open>map_of (settings c1) sln = Some r\<close> rm by simp
    then show ?thesis using Some by (simp add: base_record_def update_conv')
  next
    case None
    then have b: "base_record c sln = map_of (settings c) m"
      by (simp add: base_record_def mc)
    show ?thesis
    proof (cases "m \<in> fst ` set P")
      case False
      then show ?thesis using b j2[OF False] rm by (simp add: update_conv')
    next
      case True
      then obtain p where p: "p \<in> set P" "fst p = m" by auto
      from j3[OF p(1)] p(2) obtain r' r where r': "map_of (settings c) m = Some r'"
          "resolved c1 m = Some r" "map_of r' = (map_of r)(key \<mapsto> PList (snd p))"
        by auto
      from cP p obtain mm where mm: "map_of (sln_configurations_map c1) m = Some mm"
          "fst mm \<noteq> None"
        by (auto simp: contributes_def)
      have "mm = m" using well_formedD(2)[OF wf mm] rm by simp
      then have "r = rm" using r'(2) rm mm(1) by (simp add: resolved_def)
      then show ?thesis using b r' by (simp add: update_conv')
    qed
  qed
  then obtain b where b: "base_record c sln = Some b"
      and bm: "map_of (AList.update key (PList res) b) = (map_of rm)(key \<mapsto> PList res)"
    by blast
  have c': "c' = c\<lparr>settings := AList.update sln (AList.update key (PList res) b) (settings c),
                    sln_configurations_map :=
                      AList.update sln sln (sln_configurations_map c)\<rparr>"
    using step by (simp add: rewrite_step_def e update_settings_at_context_eq b)
  have dk: "distinct (map fst (sln_configurations_map c1))"
    using wf by (simp add: well_formed_def)
  have ink: "sln \<in> fst ` set (sln_configurations_map c1)"
    using m by (meson domI domIff map_of_eq_None_iff)
  have k1: "sln_configurations_map c' = remap (fst ` set (P @ [e])) (sln_configurations_map c1)"
    using update_remap[OF dk ink, of "fst ` set P"] by (simp add: c' j1 e)
  have k2: "\<And>k. k \<notin> fst ` set (P @ [e]) \<Longrightarrow> map_of (settings c') k = map_of (settings c1) k"
    using j2 by (auto simp: c' e update_conv')
  have k3: "\<And>p. p \<in> set (P @ [e]) \<Longrightarrow> \<exists>r' r. map_of (settings c') (fst p) = Some r'
                  \<and> resolved c1 (fst p) = Some r \<and> map_of r' = (map_of r)(key \<mapsto> PList (snd p))"
  proof -
    fix p assume "p \<in> set (P @ [e])"
    then consider "p \<in> set P" | "p = e" by auto
    then show "\<exists>r' r. map_of (settings c') (fst p) = Some r'
                  \<and> resolved c1 (fst p) = Some r \<and> map_of r' = (map_of r)(key \<mapsto> PList (snd p))"
    proof cases
      case 1
      then have "fst p \<noteq> sln" using nP by auto
      then show ?thesis using j3[OF 1] by (simp add: c' update_conv')
    next
      case 2
      then show ?thesis using res_sln bm by (simp add: e c' update_conv')
    qed
  qed
  show ?thesis
    unfolding rewrite_inv_def using k1 k2 k3 j4 by (simp add: c')
qed

lemma rewrite_inv_init: "rewrite_inv c key [] c"
  by (simp add: rewrite_inv_def)

lemma rewrite_inv_all:
  assumes wf: "well_formed c1"
    and dW: "distinct (map fst W)"
    and cW: "\<forall>e \<in> set W. contributes c1 (fst e)"
    and run: "for_each (rewrite_step key) W c1 = Inr c2"
  shows "rewrite_inv c1 key W c2"
proof (rule for_each_invariant[where I = "rewrite_inv c1 key", OF run rewrite_inv_init])
  fix pre x suf t t'
  assume W: "W = pre @ x # suf" and i: "rewrite_inv c1 key pre t"
    and b: "rewrite_step key x t = Inr t'"
  have "fst x \<notin> fst ` set pre" using dW W by auto
  moreover have "contributes c1 (fst x)" "\<forall>p \<in> set pre. contributes c1 (fst p)"
    using cW W by auto
  ultimately show "rewrite_inv c1 key (pre @ [x]) t'"
    using rewrite_inv_step[OF wf i _ _ _ b] by blast
qed

subsection \<open>The candidate sequence and the common list\<close>

lemma take1_drop: "take (Suc 0) (drop i l) = (if i < length l then [l ! i] else [])"
  by (simp add: take_Suc_conv_app_nth)

lemma drop_split: "set (drop i l) = set (take (Suc 0) (drop i l)) \<union> set (drop (Suc i) l)"
proof -
  have "take (Suc 0) (drop i l) @ drop (Suc 0) (drop i l) = drop i l"
    by (rule append_take_drop_id)
  then have "set (drop i l) = set (take (Suc 0) (drop i l)) \<union> set (drop (Suc 0) (drop i l))"
    by (metis set_append)
  then show ?thesis by simp
qed

lemma order_pass_fst:
  "fst (order_pass i od (acc, n)) = acc @ concat (map (\<lambda>e. take (Suc 0) (drop i (snd e))) od)"
  by (induction od arbitrary: acc n) (simp_all add: take1_drop)

lemma order_loop_set:
  "set (order_loop i od acc) = set acc \<union> (\<Union>e \<in> set od. set (drop i (snd e)))"
proof (induction i od acc rule: order_loop.induct)
  case (1 i od acc)
  let ?acc' = "fst (order_pass i od (acc, 0))"
  have acc': "set ?acc' = set acc \<union> (\<Union>e \<in> set od. set (take (Suc 0) (drop i (snd e))))"
    by (simp add: order_pass_fst)
  have split: "(\<Union>e \<in> set od. set (drop i (snd e)))
                 = (\<Union>e \<in> set od. set (take (Suc 0) (drop i (snd e))))
                   \<union> (\<Union>e \<in> set od. set (drop (Suc i) (snd e)))"
    by (subst drop_split) (simp add: UN_Un_distrib)
  show ?case
  proof (cases "snd (order_pass i od (acc, 0)) = length od")
    case True
    then have "length (filter (\<lambda>e. \<not> i < length (snd e)) od) = length od"
      by (simp add: order_pass_snd)
    then have "filter (\<lambda>e. \<not> i < length (snd e)) od = od"
      by (metis (mono_tags, lifting) filter_True length_filter_less less_irrefl)
    then have all: "\<And>e. e \<in> set od \<Longrightarrow> \<not> i < length (snd e)"
      by (metis (mono_tags, lifting) filter_id_conv)
    have "order_loop i od acc = ?acc'"
      using True by (subst order_loop_unfold) simp
    moreover have "(\<Union>e \<in> set od. set (drop (Suc i) (snd e))) = {}"
      using all by (simp add: not_less) (meson le_SucI)
    ultimately show ?thesis using acc' split by simp
  next
    case False
    then have eq: "order_loop i od acc = order_loop (Suc i) od ?acc'"
      by (subst order_loop_unfold) simp
    have IH: "set (order_loop (Suc i) od ?acc')
                = set ?acc' \<union> (\<Union>e \<in> set od. set (drop (Suc i) (snd e)))"
      using "1.IH"[OF prod.collapse] False by simp
    show ?thesis unfolding eq IH acc' split by (simp add: Un_assoc)
  qed
qed

lemma order_loop_candidates: "set (order_loop 0 od []) = (\<Union>e \<in> set od. set (snd e))"
  by (simp add: order_loop_set)

text \<open>The elements of a set in the order of their first occurrence in a sequence.\<close>

fun first_occurrences :: "'a list \<Rightarrow> 'a set \<Rightarrow> 'a list" where
  "first_occurrences [] s = []"
| "first_occurrences (x # xs) s =
     (if x \<in> s then x # first_occurrences xs (s - {x}) else first_occurrences xs s)"

lemma first_occurrences_set: "set (first_occurrences xs s) = set xs \<inter> s"
  by (induction xs arbitrary: s) auto

lemma first_occurrences_distinct: "distinct (first_occurrences xs s)"
  by (induction xs arbitrary: s) (auto simp: first_occurrences_set)

lemma first_occurrences_empty [simp]: "first_occurrences xs {} = []"
  by (induction xs) auto

lemma common_loop_result:
  assumes "common_loop arch xs (acc, S) = Inr (acc', S')"
  shows "acc' = acc @ first_occurrences xs (the (map_of S arch))"
    and "\<And>b. b \<noteq> arch \<Longrightarrow> map_of S' b = map_of S b"
    and "xs \<noteq> [] \<Longrightarrow> map_of S arch \<noteq> None"
proof -
  have "common_loop_no_exit arch xs (acc, S) = Inr (acc', S') \<Longrightarrow>
          acc' = acc @ first_occurrences xs (the (map_of S arch))
          \<and> (\<forall>b. b \<noteq> arch \<longrightarrow> map_of S' b = map_of S b)
          \<and> (xs \<noteq> [] \<longrightarrow> map_of S arch \<noteq> None)"
  proof (induction xs arbitrary: acc S)
    case Nil
    then show ?case by simp
  next
    case (Cons x xs)
    from Cons.prems obtain s where s: "map_of S arch = Some s"
      by (auto split: option.splits)
    show ?case
    proof (cases "x \<in> s")
      case True
      then have "common_loop_no_exit arch xs (acc @ [x], AList.update arch (s - {x}) S)
                   = Inr (acc', S')"
        using Cons.prems s by simp
      from Cons.IH[OF this] show ?thesis using s True by (simp add: update_conv')
    next
      case False
      then have "common_loop_no_exit arch xs (acc, S) = Inr (acc', S')"
        using Cons.prems s by simp
      from Cons.IH[OF this] show ?thesis using s False by simp
    qed
  qed
  then show "acc' = acc @ first_occurrences xs (the (map_of S arch))"
    and "\<And>b. b \<noteq> arch \<Longrightarrow> map_of S' b = map_of S b"
    and "xs \<noteq> [] \<Longrightarrow> map_of S arch \<noteq> None"
    using assms by (simp_all add: common_loop_no_exit_eq)
qed

lemma fold_update_fresh:
  assumes "distinct (map fst xs)" and "fst ` set xs \<inter> fst ` set acc = {}"
  shows "fold (\<lambda>e m. AList.update (fst e) (f e) m) xs acc = acc @ map (\<lambda>e. (fst e, f e)) xs"
  using assms
proof (induction xs arbitrary: acc)
  case Nil
  then show ?case by simp
next
  case (Cons x xs)
  have "fst x \<notin> fst ` set acc" using Cons.prems(2) by auto
  then have u: "AList.update (fst x) (f x) acc = acc @ [(fst x, f x)]" by (rule update_fresh)
  have "fst ` set xs \<inter> fst ` set (acc @ [(fst x, f x)]) = {}"
    using Cons.prems by auto
  then show ?case using Cons.IH[of "acc @ [(fst x, f x)]"] Cons.prems(1) u by simp
qed

lemma get_order_of_common_settings_map:
  "distinct (map fst L) \<Longrightarrow>
     get_order_of_common_settings L = map (\<lambda>e. (fst e, order_loop 0 (snd e) [])) L"
  using fold_update_fresh[of L "[]" "\<lambda>e. order_loop 0 (snd e) []"]
  by (simp add: get_order_of_common_settings_def)

text \<open>The common lists computed so far, for the architectures \<open>Q\<close> of the candidates.\<close>

definition common_inv ::
  "items_sets \<Rightarrow> (string \<times> string list) list
     \<Rightarrow> (string \<times> string list) list \<times> items_sets \<Rightarrow> bool" where
  "common_inv S Q st \<longleftrightarrow>
     (case st of (C, S') \<Rightarrow>
        C = map (\<lambda>e. (fst e, first_occurrences (snd e) (the (map_of S (fst e))))) Q
        \<and> (\<forall>b. b \<notin> fst ` set Q \<longrightarrow> map_of S' b = map_of S b)
        \<and> (\<forall>e \<in> set Q. snd e \<noteq> [] \<longrightarrow> map_of S (fst e) \<noteq> None))"

lemma common_inv_step:
  assumes inv: "common_inv S Q (C, S1)" and fresh: "fst e \<notin> fst ` set Q"
    and step: "common_arch e (C, S1) = Inr (C', S2)"
  shows "common_inv S (Q @ [e]) (C', S2)"
proof -
  from step obtain acc where loop: "common_loop (fst e) (snd e) ([], S1) = Inr (acc, S2)"
      and C': "C' = AList.update (fst e) acc C"
    by (auto simp: common_arch_def split: sum.splits)
  from inv have C: "C = map (\<lambda>e. (fst e, first_occurrences (snd e) (the (map_of S (fst e))))) Q"
      and S1: "\<And>b. b \<notin> fst ` set Q \<Longrightarrow> map_of S1 b = map_of S b"
      and ok: "\<forall>e \<in> set Q. snd e \<noteq> [] \<longrightarrow> map_of S (fst e) \<noteq> None"
    by (auto simp: common_inv_def)
  note r = common_loop_result[OF loop]
  have "fst e \<notin> fst ` set C" using fresh by (simp add: C image_image)
  then have "C' = C @ [(fst e, acc)]" unfolding C' by (rule update_fresh)
  moreover have "acc = first_occurrences (snd e) (the (map_of S (fst e)))"
    using r(1) S1[OF fresh] by simp
  moreover have "\<And>b. b \<notin> fst ` set (Q @ [e]) \<Longrightarrow> map_of S2 b = map_of S b"
    using r(2) S1 by simp
  moreover have "snd e \<noteq> [] \<longrightarrow> map_of S (fst e) \<noteq> None"
    using r(3) S1[OF fresh] by simp
  ultimately show ?thesis using C ok by (simp add: common_inv_def)
qed

lemma get_common_ordered_settings_result:
  assumes "get_common_ordered_settings M S = Inr C" and "distinct (map fst M)"
  shows "C = map (\<lambda>e. (fst e, first_occurrences (snd e) (the (map_of S (fst e))))) M"
proof -
  from assms(1) obtain S' where run: "for_each common_arch M ([], S) = Inr (C, S')"
    by (auto simp: get_common_ordered_settings_def split: sum.splits)
  have "common_inv S M (C, S')"
  proof (rule for_each_invariant[where I = "common_inv S", OF run])
    show "common_inv S [] ([], S)" by (simp add: common_inv_def)
  next
    fix pre x suf t t'
    assume M: "M = pre @ x # suf" and i: "common_inv S pre t" and b: "common_arch x t = Inr t'"
    have "fst x \<notin> fst ` set pre" using assms(2) M by auto
    then show "common_inv S (pre @ [x]) t'"
      using common_inv_step[of S pre "fst t" "snd t" x "fst t'" "snd t'"] i b by simp
  qed
  then show ?thesis by (simp add: common_inv_def)
qed

subsection \<open>Storing the common lists\<close>

abbreviation wild :: "string \<Rightarrow> config_key" where
  "wild a \<equiv> (None, Some a)"

lemma commit_step_eq:
  "commit_step key e c =
     (case map_of (settings c) (wild (fst e)) of
        None \<Rightarrow> Inl KeyError
      | Some r \<Rightarrow>
          Inr (c\<lparr>settings := AList.update (wild (fst e))
                               (AList.update key (PList (snd e)) r) (settings c),
                 sln_configurations_map :=
                   AList.update (wild (fst e)) (wild (fst e)) (sln_configurations_map c)\<rparr>))"
  by (simp add: commit_step_def)

definition commit_inv ::
  "conv_context \<Rightarrow> string \<Rightarrow> (string \<times> string list) list \<Rightarrow> conv_context \<Rightarrow> bool" where
  "commit_inv c2 key Q c \<longleftrightarrow>
     (\<forall>k. map_of (sln_configurations_map c) k
            = (if k \<in> wild ` fst ` set Q then Some k else map_of (sln_configurations_map c2) k))
     \<and> (\<exists>new. map fst (sln_configurations_map c) = map fst (sln_configurations_map c2) @ new
              \<and> set new \<subseteq> wild ` fst ` set Q)
     \<and> (distinct (map fst (sln_configurations_map c2))
          \<longrightarrow> distinct (map fst (sln_configurations_map c)))
     \<and> (\<forall>k. k \<notin> wild ` fst ` set Q \<longrightarrow> map_of (settings c) k = map_of (settings c2) k)
     \<and> (\<forall>e \<in> set Q. \<exists>r. map_of (settings c2) (wild (fst e)) = Some r
            \<and> map_of (settings c) (wild (fst e)) = Some (AList.update key (PList (snd e)) r))
     \<and> utils c = utils c2 \<and> configurations_to_parse c = configurations_to_parse c2
     \<and> vcxproj_path c = vcxproj_path c2 \<and> messages c = messages c2
     \<and> current_setting c = current_setting c2"

lemma commit_inv_step:
  assumes inv: "commit_inv c2 key Q c" and fresh: "fst e \<notin> fst ` set Q"
    and step: "commit_step key e c = Inr c'"
  shows "commit_inv c2 key (Q @ [e]) c'"
proof -
  from step obtain r where r: "map_of (settings c) (wild (fst e)) = Some r"
      and c': "c' = c\<lparr>settings := AList.update (wild (fst e))
                               (AList.update key (PList (snd e)) r) (settings c),
                 sln_configurations_map :=
                   AList.update (wild (fst e)) (wild (fst e)) (sln_configurations_map c)\<rparr>"
    by (auto simp: commit_step_eq split: option.splits)
  from inv have i1: "\<And>k. map_of (sln_configurations_map c) k
            = (if k \<in> wild ` fst ` set Q then Some k else map_of (sln_configurations_map c2) k)"
      and i2: "\<exists>new. map fst (sln_configurations_map c) = map fst (sln_configurations_map c2) @ new
              \<and> set new \<subseteq> wild ` fst ` set Q"
      and i3: "distinct (map fst (sln_configurations_map c2))
          \<longrightarrow> distinct (map fst (sln_configurations_map c))"
      and i4: "\<And>k. k \<notin> wild ` fst ` set Q \<Longrightarrow> map_of (settings c) k = map_of (settings c2) k"
      and i5: "\<And>q. q \<in> set Q \<Longrightarrow> \<exists>r. map_of (settings c2) (wild (fst q)) = Some r
            \<and> map_of (settings c) (wild (fst q)) = Some (AList.update key (PList (snd q)) r)"
      and i6: "utils c = utils c2" "configurations_to_parse c = configurations_to_parse c2"
              "vcxproj_path c = vcxproj_path c2" "messages c = messages c2"
              "current_setting c = current_setting c2"
    unfolding commit_inv_def by blast+
  have nQ: "wild (fst e) \<notin> wild ` fst ` set Q" using fresh by auto
  have k1: "\<And>k. map_of (sln_configurations_map c') k
            = (if k \<in> wild ` fst ` set (Q @ [e]) then Some k
               else map_of (sln_configurations_map c2) k)"
    using i1 by (auto simp: c' update_conv')
  from i2 obtain new where new: "map fst (sln_configurations_map c)
        = map fst (sln_configurations_map c2) @ new" "set new \<subseteq> wild ` fst ` set Q"
    by blast
  have k2: "\<exists>new. map fst (sln_configurations_map c') = map fst (sln_configurations_map c2) @ new
              \<and> set new \<subseteq> wild ` fst ` set (Q @ [e])"
  proof (cases "wild (fst e) \<in> set (map fst (sln_configurations_map c))")
    case True
    then have "map fst (sln_configurations_map c') = map fst (sln_configurations_map c2) @ new"
      using new(1) by (simp add: c' update_keys)
    then show ?thesis using new(2) by auto
  next
    case False
    then have "map fst (sln_configurations_map c')
                 = map fst (sln_configurations_map c2) @ (new @ [wild (fst e)])"
      using new(1) by (simp add: c' update_keys)
    moreover have "set (new @ [wild (fst e)]) \<subseteq> wild ` fst ` set (Q @ [e])"
      using new(2) by auto
    ultimately show ?thesis by blast
  qed
  have k3: "distinct (map fst (sln_configurations_map c2))
          \<longrightarrow> distinct (map fst (sln_configurations_map c'))"
    using i3 by (simp add: c' distinct_update)
  have k4: "\<And>k. k \<notin> wild ` fst ` set (Q @ [e]) \<Longrightarrow> map_of (settings c') k = map_of (settings c2) k"
    using i4 by (auto simp: c' update_conv')
  have k5: "\<And>q. q \<in> set (Q @ [e]) \<Longrightarrow> \<exists>r. map_of (settings c2) (wild (fst q)) = Some r
            \<and> map_of (settings c') (wild (fst q)) = Some (AList.update key (PList (snd q)) r)"
  proof -
    fix q assume "q \<in> set (Q @ [e])"
    then consider "q \<in> set Q" | "q = e" by auto
    then show "\<exists>r. map_of (settings c2) (wild (fst q)) = Some r
            \<and> map_of (settings c') (wild (fst q)) = Some (AList.update key (PList (snd q)) r)"
    proof cases
      case 1
      then have "fst q \<noteq> fst e" using fresh by (metis imageI)
      then show ?thesis using i5[OF 1] by (simp add: c' update_conv')
    next
      case 2
      then show ?thesis using r i4[OF nQ] by (simp add: c' update_conv')
    qed
  qed
  show ?thesis
    unfolding commit_inv_def using k1 k2 k3 k4 k5 i6 by (simp add: c')
qed

lemma commit_inv_all:
  assumes "for_each (commit_step key) M c2 = Inr c3" and "distinct (map fst M)"
  shows "commit_inv c2 key M c3"
proof (rule for_each_invariant[where I = "commit_inv c2 key", OF assms(1)])
  show "commit_inv c2 key [] c2" by (simp add: commit_inv_def)
next
  fix pre x suf t t'
  assume M: "M = pre @ x # suf" and i: "commit_inv c2 key pre t"
    and b: "commit_step key x t = Inr t'"
  have "fst x \<notin> fst ` set pre" using assms(2) M by auto
  then show "commit_inv c2 key (pre @ [x]) t'" using commit_inv_step[OF i _ b] by blast
qed

subsection \<open>The pass for one key, in terms of the input context\<close>

definition contributors :: "conv_context \<Rightarrow> string \<Rightarrow> config_key set" where
  "contributors c key =
     {sln \<in> set (map fst (sln_configurations_map c)). contribution c key sln \<noteq> None}"

definition residual_of :: "conv_context \<Rightarrow> string \<Rightarrow> config_key \<Rightarrow> string list" where
  "residual_of c key sln =
     filter (\<lambda>x. x \<notin> common_values c key (the (snd sln))) (the (contribution c key sln))"

definition common_list :: "conv_context \<Rightarrow> string \<Rightarrow> string \<Rightarrow> string list" where
  "common_list c key a =
     first_occurrences (order_loop 0 (contributions c key a) []) (common_values c key a)"

lemma contributions_mem:
  "(sln, l) \<in> set (contributions c key a)
     \<longleftrightarrow> sln \<in> set (map fst (sln_configurations_map c)) \<and> snd sln = Some a
         \<and> contribution c key sln = Some l"
  by (simp add: contributions_def contributing_mem)

lemma common_list_set:
  assumes "contributions c key a \<noteq> []"
  shows "set (common_list c key a) = common_values c key a"
proof -
  from assms obtain e where "e \<in> set (contributions c key a)" by (cases "contributions c key a") auto
  then have "common_values c key a \<subseteq> (\<Union>e \<in> set (contributions c key a). set (snd e))"
    unfolding common_values_def by blast
  then show ?thesis
    by (auto simp: common_list_def first_occurrences_set order_loop_candidates)
qed

lemma common_list_distinct: "distinct (common_list c key a)"
  by (simp add: common_list_def first_occurrences_distinct)

lemma common_list_none: "contributions c key a = [] \<Longrightarrow> common_list c key a = []"
  by (simp add: common_list_def order_loop_unfold)

text \<open>The dictionaries built by the intersection pass.\<close>

lemma pass_lists:
  assumes inv: "pass_inv c key (map fst (sln_configurations_map c)) (c1, L, S)"
  shows "distinct (map fst L)"
    and "L = map (\<lambda>a. (a, contributions c key a)) (map fst L)"
    and "set (map fst L) = archs (map fst (sln_configurations_map c))"
    and "\<And>a. contributions c key a \<noteq> [] \<Longrightarrow> map_of S a = Some (common_values c key a)"
proof -
  let ?slns = "map fst (sln_configurations_map c)"
  from inv have dL: "distinct (map fst L)"
      and mL: "\<And>a. map_of L a = (if a \<in> archs ?slns then Some (contributions c key a) else None)"
      and mS: "\<And>a. contributions c key a \<noteq> [] \<Longrightarrow> map_of S a = Some (common_values c key a)"
    unfolding pass_inv_def contributions_def common_values_def by auto
  show "distinct (map fst L)" by (rule dL)
  show "\<And>a. contributions c key a \<noteq> [] \<Longrightarrow> map_of S a = Some (common_values c key a)"
    by (rule mS)
  have each: "\<And>g. g \<in> set L \<Longrightarrow> fst g \<in> archs ?slns \<and> snd g = contributions c key (fst g)"
  proof -
    fix g assume "g \<in> set L"
    then have "map_of L (fst g) = Some (snd g)" using dL by (simp add: map_of_eq_Some_iff)
    then show "fst g \<in> archs ?slns \<and> snd g = contributions c key (fst g)"
      using mL[of "fst g"] by (auto split: if_splits)
  qed
  then have "map (\<lambda>g. (fst g, contributions c key (fst g))) L = L"
    by (intro map_idI) (metis prod.collapse)
  then show "L = map (\<lambda>a. (a, contributions c key a)) (map fst L)"
    by (simp add: comp_def)
  show "set (map fst L) = archs ?slns"
  proof
    show "set (map fst L) \<subseteq> archs ?slns" using each by auto
    show "archs ?slns \<subseteq> set (map fst L)"
    proof
      fix a assume "a \<in> archs ?slns"
      then have "map_of L a \<noteq> None" using mL[of a] by simp
      then show "a \<in> set (map fst L)" by (simp add: map_of_eq_None_iff)
    qed
  qed
qed

lemma residuals_set:
  assumes L: "L = map (\<lambda>a. (a, contributions c key a)) AL"
    and AL: "set AL = archs (map fst (sln_configurations_map c))"
    and mS: "\<And>a. contributions c key a \<noteq> [] \<Longrightarrow> map_of S a = Some (common_values c key a)"
    and har: "\<forall>sln \<in> set (map fst (sln_configurations_map c)).
                contribution c key sln = None \<or> snd sln \<noteq> None"
  shows "set (residuals S L) = (\<lambda>sln. (sln, residual_of c key sln)) ` contributors c key"
proof
  show "set (residuals S L) \<subseteq> (\<lambda>sln. (sln, residual_of c key sln)) ` contributors c key"
  proof
    fix w assume "w \<in> set (residuals S L)"
    then obtain a e where a: "a \<in> set AL" and e: "e \<in> set (contributions c key a)"
        and w: "w = (fst e, filter (\<lambda>x. x \<notin> the (map_of S a)) (snd e))"
      unfolding residuals_def L by auto
    from e have ne: "contributions c key a \<noteq> []" by auto
    from e have m: "fst e \<in> set (map fst (sln_configurations_map c))" "snd (fst e) = Some a"
        "contribution c key (fst e) = Some (snd e)"
      using contributions_mem[of "fst e" "snd e" c key a] by simp_all
    have "w = (fst e, residual_of c key (fst e))"
      using w m mS[OF ne] by (simp add: residual_of_def)
    moreover have "fst e \<in> contributors c key" using m by (simp add: contributors_def)
    ultimately show "w \<in> (\<lambda>sln. (sln, residual_of c key sln)) ` contributors c key" by blast
  qed
  show "(\<lambda>sln. (sln, residual_of c key sln)) ` contributors c key \<subseteq> set (residuals S L)"
  proof
    fix w assume "w \<in> (\<lambda>sln. (sln, residual_of c key sln)) ` contributors c key"
    then obtain sln where sln: "sln \<in> contributors c key" and w: "w = (sln, residual_of c key sln)"
      by blast
    then obtain l where l: "contribution c key sln = Some l"
        and inm: "sln \<in> set (map fst (sln_configurations_map c))"
      by (auto simp: contributors_def)
    obtain a where a: "snd sln = Some a" using har inm l by fastforce
    have e: "(sln, l) \<in> set (contributions c key a)"
      using l inm a by (simp add: contributions_mem)
    then have ne: "contributions c key a \<noteq> []" by auto
    have "a \<in> set AL" using AL inm a by (force simp: archs_def)
    moreover have "w = (fst (sln, l), filter (\<lambda>x. x \<notin> the (map_of S a)) (snd (sln, l)))"
      using w l a mS[OF ne] by (simp add: residual_of_def)
    ultimately have "\<exists>g \<in> set L. w \<in> (\<lambda>e. (fst e, filter (\<lambda>x. x \<notin> the (map_of S (fst g))) (snd e)))
                                       ` set (snd g)"
      unfolding L using e by (intro bexI[of _ "(a, contributions c key a)"]) force+
    then show "w \<in> set (residuals S L)"
      unfolding residuals_def by auto
  qed
qed

lemma residuals_keys_distinct:
  assumes "distinct slns" and "distinct AL"
  shows "distinct (concat (map (\<lambda>a. map fst (contributing c key a slns)) AL))"
  using assms(2)
proof (induction AL)
  case Nil
  then show ?case by simp
next
  case (Cons a AL)
  have "set (map fst (contributing c key a slns))
          \<inter> set (concat (map (\<lambda>a. map fst (contributing c key a slns)) AL)) = {}"
  proof (rule ccontr)
    assume "\<not> ?thesis"
    then obtain sln b where "sln \<in> fst ` set (contributing c key a slns)"
        "b \<in> set AL" "sln \<in> fst ` set (contributing c key b slns)"
      by auto
    then have "snd sln = Some a" "snd sln = Some b"
      using contributing_arch[of _ c key a slns] contributing_arch[of _ c key b slns] by auto
    then show False using \<open>b \<in> set AL\<close> Cons.prems by auto
  qed
  then show ?case
    using Cons contributing_distinct[OF assms(1), of c key a] by simp
qed

lemma residuals_distinct:
  assumes L: "L = map (\<lambda>a. (a, contributions c key a)) AL" and "distinct AL"
    and "distinct (map fst (sln_configurations_map c))"
  shows "distinct (map fst (residuals S L))"
proof -
  have "map fst (residuals S L)
          = concat (map (\<lambda>a. map fst (contributing c key a (map fst (sln_configurations_map c)))) AL)"
    unfolding residuals_def L
    by (simp add: map_concat comp_def contributions_def)
  then show ?thesis using residuals_keys_distinct[OF assms(3) assms(2)] by simp
qed

lemma merged_settings_eq:
  assumes L: "L = map (\<lambda>a. (a, contributions c key a)) AL" and dAL: "distinct AL"
    and mS: "\<And>a. contributions c key a \<noteq> [] \<Longrightarrow> map_of S a = Some (common_values c key a)"
    and run: "get_common_ordered_settings (get_order_of_common_settings L) S = Inr M"
  shows "M = map (\<lambda>a. (a, common_list c key a)) AL"
proof -
  have dL: "distinct (map fst L)" using dAL by (simp add: L comp_def)
  have ord: "get_order_of_common_settings L
               = map (\<lambda>a. (a, order_loop 0 (contributions c key a) [])) AL"
    by (simp add: get_order_of_common_settings_map[OF dL]) (simp add: L comp_def)
  have "distinct (map fst (get_order_of_common_settings L))"
    using dAL by (simp add: ord comp_def)
  from get_common_ordered_settings_result[OF run this]
  have M: "M = map (\<lambda>a. (a, first_occurrences (order_loop 0 (contributions c key a) [])
                                (the (map_of S a)))) AL"
    by (simp add: ord comp_def)
  have "first_occurrences (order_loop 0 (contributions c key a) []) (the (map_of S a))
          = common_list c key a" for a
  proof (cases "contributions c key a = []")
    case True
    then show ?thesis by (simp add: common_list_def order_loop_unfold)
  next
    case False
    then show ?thesis using mS[OF False] by (simp add: common_list_def)
  qed
  then show ?thesis using M by simp
qed

lemma well_formed_seeded:
  assumes "well_formed c" and "seeded c c1"
  shows "well_formed c1"
proof -
  have m: "sln_configurations_map c1 = sln_configurations_map c"
    using assms(2) by (simp add: seeded_def)
  have "\<And>k. fst k \<noteq> None \<Longrightarrow> map_of (settings c1) k = map_of (settings c) k"
    using seeded_concrete[OF assms(2)] by blast
  then show ?thesis
    using assms(1) unfolding well_formed_def m list_all_iff by metis
qed

lemma contributes_seeded:
  assumes sd: "seeded c c1" and k: "sln \<in> contributors c key"
  shows "contributes c1 sln"
proof -
  from k obtain l where "contribution c key sln = Some l" by (auto simp: contributors_def)
  then obtain m where m: "map_of (sln_configurations_map c) sln = Some m" "fst m \<noteq> None"
      "map_of (settings c) m \<noteq> None"
    by (auto simp: contribution_def lookup_def split: option.splits if_splits)
  then show ?thesis
    using sd seeded_concrete[OF sd m(2)] by (auto simp: contributes_def seeded_def)
qed

text \<open>The phases of the pass for one key, with what each leaves behind.\<close>

lemma merge_key_phases:
  assumes wf: "well_formed c" and run: "merge_key key c = Inr c'"
  obtains c1 c2 W M where
    "seeded c c1"
    "\<forall>sln \<in> set (map fst (sln_configurations_map c)). map_of (settings c1) (None, snd sln) \<noteq> None"
    "\<forall>sln \<in> set (map fst (sln_configurations_map c)).
        \<exists>m. map_of (sln_configurations_map c) sln = Some m \<and> map_of (settings c1) m \<noteq> None"
    "\<forall>sln \<in> set (map fst (sln_configurations_map c)).
        contribution c key sln = None \<or> snd sln \<noteq> None"
    "set W = (\<lambda>sln. (sln, residual_of c key sln)) ` contributors c key"
    "rewrite_inv c1 key W c2"
    "set M = (\<lambda>a. (a, common_list c key a)) ` archs (map fst (sln_configurations_map c))"
    "commit_inv c2 key M c'"
proof -
  let ?slns = "map fst (sln_configurations_map c)"
  have dk: "distinct ?slns" using wf by (simp add: well_formed_def)
  from run obtain c1 L S where ip: "intersection_pass key c = Inr (c1, L, S)"
    by (auto simp: merge_key_def split: sum.splits)
  then obtain c2 where rc: "remove_common_settings_from_context c1 L S key = Inr c2"
    using run by (auto simp: merge_key_def split: sum.splits)
  then obtain M where gm: "get_common_ordered_settings (get_order_of_common_settings L) S = Inr M"
      and cm: "for_each (commit_step key) M c2 = Inr c'"
    using run ip by (auto simp: merge_key_def split: sum.splits)
  have inv: "pass_inv c key ?slns (c1, L, S)" using intersection_pass_inv[OF ip dk] .
  note pl = pass_lists[OF inv]
  from inv have sd: "seeded c c1"
      and p1: "\<forall>sln \<in> set ?slns. map_of (settings c1) (None, snd sln) \<noteq> None"
      and p2: "\<forall>sln \<in> set ?slns.
                 \<exists>m. map_of (sln_configurations_map c) sln = Some m \<and> map_of (settings c1) m \<noteq> None"
      and p3: "\<forall>sln \<in> set ?slns. contribution c key sln = None \<or> snd sln \<noteq> None"
    unfolding pass_inv_def by auto
  have flat_ok: "\<forall>g \<in> set L. snd g \<noteq> [] \<longrightarrow> map_of S (fst g) \<noteq> None"
  proof (intro ballI impI)
    fix g assume g: "g \<in> set L" "snd g \<noteq> []"
    then have "g \<in> set (map (\<lambda>a. (a, contributions c key a)) (map fst L))" using pl(2) by simp
    then have "snd g = contributions c key (fst g)" by auto
    then show "map_of S (fst g) \<noteq> None" using pl(4)[of "fst g"] g(2) by simp
  qed
  let ?W = "residuals S L"
  have rw: "for_each (rewrite_step key) ?W c1 = Inr c2"
    using rc remove_common_flat[OF flat_ok] by simp
  have setW: "set ?W = (\<lambda>sln. (sln, residual_of c key sln)) ` contributors c key"
    using residuals_set[OF pl(2) pl(3) pl(4) p3] by simp
  have dW: "distinct (map fst ?W)" using residuals_distinct[OF pl(2) pl(1) dk] .
  have cW: "\<forall>e \<in> set ?W. contributes c1 (fst e)"
    using setW contributes_seeded[OF sd] by auto
  have ri: "rewrite_inv c1 key ?W c2"
    using rewrite_inv_all[OF well_formed_seeded[OF wf sd] dW cW rw] .
  have Meq: "M = map (\<lambda>a. (a, common_list c key a)) (map fst L)"
    using merged_settings_eq[OF pl(2) pl(1) pl(4) gm] .
  then have dM: "distinct (map fst M)" using pl(1) by (simp add: comp_def)
  have setM: "set M = (\<lambda>a. (a, common_list c key a)) ` archs ?slns"
    using Meq pl(3) by (metis list.set_map)
  have ci: "commit_inv c2 key M c'" using commit_inv_all[OF cm dM] .
  show ?thesis using that[OF sd p1 p2 p3 setW ri setM ci] .
qed

lemma seeded_lookup:
  assumes "seeded c c1" and "map_of (settings c1) k = Some r"
  shows "map_of (settings c) k = Some r
         \<or> (map_of (settings c) k = None \<and> fst k = None \<and> r = init_record (utils c) k)"
proof -
  from assms(1) obtain ext where ext: "settings c1 = settings c @ ext"
      "\<forall>e \<in> set ext. fst (fst e) = None \<and> map_of (settings c) (fst e) = None
                   \<and> snd e = init_record (utils c) (fst e)"
    by (auto simp: seeded_def)
  show ?thesis
  proof (cases "map_of (settings c) k")
    case (Some r0)
    then show ?thesis using assms(2) ext(1) by (simp add: map_add_def)
  next
    case None
    then have "map_of ext k = Some r" using assms(2) ext(1) by (simp add: map_add_def)
    then have "(k, r) \<in> set ext" by (rule map_of_SomeD)
    then show ?thesis using ext(2) None by fastforce
  qed
qed

lemma contributors_concrete:
  assumes "well_formed c" and "sln \<in> contributors c key"
  shows "fst sln \<noteq> None"
proof -
  from assms(2) obtain m where "map_of (sln_configurations_map c) sln = Some m" "fst m \<noteq> None"
    by (auto simp: contributors_def contribution_def split: option.splits if_splits)
  then show ?thesis using well_formedD(1)[OF assms(1)] by blast
qed

lemma contributors_own:
  assumes "well_formed c" and "sln \<in> contributors c key" and "map_of (settings c) sln \<noteq> None"
  shows "map_of (sln_configurations_map c) sln = Some sln"
proof -
  from assms(2) obtain m where m: "map_of (sln_configurations_map c) sln = Some m" "fst m \<noteq> None"
    by (auto simp: contributors_def contribution_def split: option.splits if_splits)
  then show ?thesis using well_formedD(2)[OF assms(1) m assms(3)] by simp
qed

lemma contribution_resolved:
  "contribution c key sln = Some l \<Longrightarrow>
     \<exists>r v. resolved c sln = Some r \<and> map_of r key = Some v \<and> l = seq_items v"
  by (auto simp: contribution_def resolved_def lookup_def split: option.splits if_splits)

text \<open>What the pass for one key leaves, in terms of its input.\<close>

lemma merge_key_summary:
  assumes wf: "well_formed c" and run: "merge_key key c = Inr c'"
  defines "A \<equiv> archs (map fst (sln_configurations_map c))"
    and "Ks \<equiv> contributors c key"
  shows "\<And>k. map_of (sln_configurations_map c') k
              = (if k \<in> wild ` A \<union> Ks then Some k else map_of (sln_configurations_map c) k)"
    and "\<exists>new. map fst (sln_configurations_map c') = map fst (sln_configurations_map c) @ new
              \<and> set new \<subseteq> wild ` A"
    and "distinct (map fst (sln_configurations_map c'))"
    and "\<And>sln. sln \<in> Ks \<Longrightarrow> \<exists>r' r. map_of (settings c') sln = Some r' \<and> resolved c sln = Some r
              \<and> map_of r' = (map_of r)(key \<mapsto> PList (residual_of c key sln))"
    and "\<And>a. a \<in> A \<Longrightarrow> \<exists>r r0. map_of (settings c') (wild a) = Some r
              \<and> map_of r = (map_of r0)(key \<mapsto> PList (common_list c key a))
              \<and> (map_of (settings c) (wild a) = Some r0
                  \<or> (map_of (settings c) (wild a) = None \<and> r0 = init_record (utils c) (wild a)))"
    and "\<And>k. k \<notin> wild ` A \<union> Ks \<Longrightarrow> map_of (settings c) k \<noteq> None \<or> fst k \<noteq> None
              \<Longrightarrow> map_of (settings c') k = map_of (settings c) k"
    and "\<And>sln m. map_of (sln_configurations_map c) sln = Some m \<Longrightarrow> fst m \<noteq> None
              \<Longrightarrow> map_of (settings c) m \<noteq> None"
    and "\<And>sln. sln \<in> Ks \<Longrightarrow> snd sln \<noteq> None"
    and "utils c' = utils c"
  unfolding A_def Ks_def
proof -
  let ?slns = "map fst (sln_configurations_map c)"
  let ?A = "archs (map fst (sln_configurations_map c))"
  let ?Ks = "contributors c key"
  obtain c1 c2 W M where
    sd: "seeded c c1"
    and p1: "\<forall>sln \<in> set ?slns. map_of (settings c1) (None, snd sln) \<noteq> None"
    and p2: "\<forall>sln \<in> set ?slns.
               \<exists>m. map_of (sln_configurations_map c) sln = Some m \<and> map_of (settings c1) m \<noteq> None"
    and p3: "\<forall>sln \<in> set ?slns. contribution c key sln = None \<or> snd sln \<noteq> None"
    and setW: "set W = (\<lambda>sln. (sln, residual_of c key sln)) ` ?Ks"
    and ri: "rewrite_inv c1 key W c2"
    and setM: "set M = (\<lambda>a. (a, common_list c key a)) ` ?A"
    and ci: "commit_inv c2 key M c'"
    by (rule merge_key_phases[OF wf run])
  have fW: "fst ` set W = ?Ks" unfolding setW by (simp add: image_image)
  have fM: "fst ` set M = ?A" unfolding setM by (simp add: image_image)
  have m1: "sln_configurations_map c1 = sln_configurations_map c"
    using sd by (simp add: seeded_def)
  from ri have r1: "sln_configurations_map c2 = remap ?Ks (sln_configurations_map c)"
      and r2: "\<And>k. k \<notin> ?Ks \<Longrightarrow> map_of (settings c2) k = map_of (settings c1) k"
      and r3: "\<And>e. e \<in> set W \<Longrightarrow> \<exists>r' r. map_of (settings c2) (fst e) = Some r'
                  \<and> resolved c1 (fst e) = Some r \<and> map_of r' = (map_of r)(key \<mapsto> PList (snd e))"
      and r4: "utils c2 = utils c1"
    unfolding rewrite_inv_def fW m1 by blast+
  from ci have q1: "\<And>k. map_of (sln_configurations_map c') k
            = (if k \<in> wild ` ?A then Some k else map_of (sln_configurations_map c2) k)"
      and q2: "\<exists>new. map fst (sln_configurations_map c') = map fst (sln_configurations_map c2) @ new
              \<and> set new \<subseteq> wild ` ?A"
      and q3: "distinct (map fst (sln_configurations_map c2))
                 \<longrightarrow> distinct (map fst (sln_configurations_map c'))"
      and q4: "\<And>k. k \<notin> wild ` ?A \<Longrightarrow> map_of (settings c') k = map_of (settings c2) k"
      and q5: "\<And>e. e \<in> set M \<Longrightarrow> \<exists>r. map_of (settings c2) (wild (fst e)) = Some r
            \<and> map_of (settings c') (wild (fst e)) = Some (AList.update key (PList (snd e)) r)"
      and q6: "utils c' = utils c2"
    unfolding commit_inv_def fM by blast+
  have KsD: "\<And>sln. sln \<in> ?Ks \<Longrightarrow> map_of (sln_configurations_map c) sln \<noteq> None"
    unfolding Ks_def contributors_def by (auto simp: contribution_def split: option.splits)
  have Ks_conc: "\<And>sln. sln \<in> ?Ks \<Longrightarrow> fst sln \<noteq> None"
    unfolding Ks_def using contributors_concrete[OF wf] by blast
  have Ks_nw: "\<And>sln. sln \<in> ?Ks \<Longrightarrow> sln \<notin> wild ` ?A"
  proof
    fix sln assume "sln \<in> ?Ks" "sln \<in> wild ` ?A"
    then have "fst sln \<noteq> None" "fst sln = None" using Ks_conc by (blast, force)
    then show False by simp
  qed
  show "\<And>k. map_of (sln_configurations_map c') k
              = (if k \<in> wild ` ?A \<union> ?Ks then Some k else map_of (sln_configurations_map c) k)"
  proof -
    fix k
    have "map_of (remap ?Ks (sln_configurations_map c)) k
            = (if k \<in> ?Ks then Some k else map_of (sln_configurations_map c) k)"
      using KsD[of k] by (cases "map_of (sln_configurations_map c) k") (auto simp: map_of_remap)
    then show "map_of (sln_configurations_map c') k
              = (if k \<in> wild ` ?A \<union> ?Ks then Some k else map_of (sln_configurations_map c) k)"
      by (simp add: q1 r1)
  qed
  show "\<exists>new. map fst (sln_configurations_map c') = map fst (sln_configurations_map c) @ new
              \<and> set new \<subseteq> wild ` ?A"
    using q2 by (simp add: r1)
  show "distinct (map fst (sln_configurations_map c'))"
    using q3 wf by (simp add: r1 well_formed_def)
  show "\<And>sln. sln \<in> ?Ks \<Longrightarrow> \<exists>r' r. map_of (settings c') sln = Some r' \<and> resolved c sln = Some r
              \<and> map_of r' = (map_of r)(key \<mapsto> PList (residual_of c key sln))"
  proof -
    fix sln assume k: "sln \<in> ?Ks"
    then have "(sln, residual_of c key sln) \<in> set W" unfolding setW by blast
    from r3[OF this] obtain r' r where r': "map_of (settings c2) sln = Some r'"
        "resolved c1 sln = Some r" "map_of r' = (map_of r)(key \<mapsto> PList (residual_of c key sln))"
      by auto
    from k obtain l where "contribution c key sln = Some l"
      unfolding Ks_def contributors_def by auto
    then obtain m where m: "map_of (sln_configurations_map c) sln = Some m" "fst m \<noteq> None"
      by (auto simp: contribution_def split: option.splits if_splits)
    have "resolved c sln = Some r"
      using r'(2) m seeded_concrete[OF sd m(2)] by (simp add: resolved_def m1)
    moreover have "map_of (settings c') sln = Some r'"
      using q4[OF Ks_nw[OF k]] r'(1) by simp
    ultimately show "\<exists>r' r. map_of (settings c') sln = Some r' \<and> resolved c sln = Some r
              \<and> map_of r' = (map_of r)(key \<mapsto> PList (residual_of c key sln))"
      using r'(3) by blast
  qed
  show "\<And>a. a \<in> ?A \<Longrightarrow> \<exists>r r0. map_of (settings c') (wild a) = Some r
              \<and> map_of r = (map_of r0)(key \<mapsto> PList (common_list c key a))
              \<and> (map_of (settings c) (wild a) = Some r0
                  \<or> (map_of (settings c) (wild a) = None \<and> r0 = init_record (utils c) (wild a)))"
  proof -
    fix a assume a: "a \<in> ?A"
    then have "(a, common_list c key a) \<in> set M" unfolding setM by blast
    from q5[OF this] obtain r0 where r0: "map_of (settings c2) (wild a) = Some r0"
        "map_of (settings c') (wild a) = Some (AList.update key (PList (common_list c key a)) r0)"
      by auto
    have "wild a \<notin> ?Ks" using Ks_conc[of "wild a"] by auto
    then have "map_of (settings c1) (wild a) = Some r0" using r2 r0(1) by simp
    from seeded_lookup[OF sd this]
    have "map_of (settings c) (wild a) = Some r0
                  \<or> (map_of (settings c) (wild a) = None \<and> r0 = init_record (utils c) (wild a))"
      by blast
    then show "\<exists>r r0. map_of (settings c') (wild a) = Some r
              \<and> map_of r = (map_of r0)(key \<mapsto> PList (common_list c key a))
              \<and> (map_of (settings c) (wild a) = Some r0
                  \<or> (map_of (settings c) (wild a) = None \<and> r0 = init_record (utils c) (wild a)))"
      using r0(2) by (intro exI[of _ "AList.update key (PList (common_list c key a)) r0"]
          exI[of _ r0]) (simp add: update_conv')
  qed
  show "\<And>k. k \<notin> wild ` ?A \<union> ?Ks \<Longrightarrow> map_of (settings c) k \<noteq> None \<or> fst k \<noteq> None
              \<Longrightarrow> map_of (settings c') k = map_of (settings c) k"
  proof -
    fix k assume k: "k \<notin> wild ` ?A \<union> ?Ks" and pk: "map_of (settings c) k \<noteq> None \<or> fst k \<noteq> None"
    have "map_of (settings c') k = map_of (settings c1) k" using k q4 r2 by simp
    moreover have "map_of (settings c1) k = map_of (settings c) k"
    proof (cases "fst k = None")
      case False
      then show ?thesis using seeded_concrete[OF sd] by blast
    next
      case True
      then obtain r where r: "map_of (settings c) k = Some r" using pk by blast
      then show ?thesis using seeded_present[OF sd r] by simp
    qed
    ultimately show "map_of (settings c') k = map_of (settings c) k" by simp
  qed
  show "\<And>sln m. map_of (sln_configurations_map c) sln = Some m \<Longrightarrow> fst m \<noteq> None
              \<Longrightarrow> map_of (settings c) m \<noteq> None"
  proof -
    fix sln m assume m: "map_of (sln_configurations_map c) sln = Some m" "fst m \<noteq> None"
    then have "sln \<in> set ?slns" by (force dest: map_of_SomeD)
    then have "map_of (settings c1) m \<noteq> None" using p2 m(1) by fastforce
    then show "map_of (settings c) m \<noteq> None" using seeded_concrete[OF sd m(2)] by simp
  qed
  show "\<And>sln. sln \<in> ?Ks \<Longrightarrow> snd sln \<noteq> None"
    using p3 unfolding Ks_def contributors_def by auto
  show "utils c' = utils c" using q6 r4 sd by (simp add: seeded_def)
qed

lemma well_formed_entry:
  assumes "well_formed c" and "map_of (sln_configurations_map c) sln = Some m"
  shows "fst m = None \<or> (fst sln \<noteq> None \<and> (map_of (settings c) sln = None \<or> m = sln))"
proof -
  from assms(2) have "(sln, m) \<in> set (sln_configurations_map c)" by (rule map_of_SomeD)
  with assms(1) show ?thesis by (auto simp: well_formed_def list_all_iff)
qed

lemma wildcard_no_contribution:
  assumes "well_formed c" and "fst sln = None"
  shows "contribution c k sln = None"
proof (cases "map_of (sln_configurations_map c) sln")
  case None
  then show ?thesis by (simp add: contribution_def)
next
  case (Some m)
  then have "fst m = None" using well_formed_entry[OF assms(1) Some] assms(2) by blast
  then show ?thesis using Some by (simp add: contribution_def split: option.splits)
qed

lemma contribution_lookup:
  assumes "map_of (sln_configurations_map c) sln = Some m" and "fst m \<noteq> None"
  shows "contribution c k sln = map_option seq_items (lookup (settings c) m k)"
  using assms by (auto simp: contribution_def split: option.splits)

lemma contributors_iff:
  "sln \<in> contributors c key \<longleftrightarrow> contribution c key sln \<noteq> None"
proof -
  have "contribution c key sln \<noteq> None \<Longrightarrow> sln \<in> set (map fst (sln_configurations_map c))"
    by (auto simp: contribution_def split: option.splits dest!: map_of_SomeD) force
  then show ?thesis by (auto simp: contributors_def)
qed

lemma contribution_after:
  assumes wf: "well_formed c" and run: "merge_key key c = Inr c'"
  shows "contribution c' k2 sln =
           (if k2 = key then map_option (\<lambda>l. residual_of c key sln) (contribution c key sln)
            else contribution c k2 sln)"
proof -
  let ?A = "archs (map fst (sln_configurations_map c))"
  let ?Ks = "contributors c key"
  note S = merge_key_summary[OF wf run]
  consider (w) "sln \<in> wild ` ?A" | (k) "sln \<in> ?Ks" "sln \<notin> wild ` ?A"
    | (o) "sln \<notin> wild ` ?A \<union> ?Ks" by blast
  then show ?thesis
  proof cases
    case w
    then have f: "fst sln = None" by auto
    have "map_of (sln_configurations_map c') sln = Some sln" using S(1)[of sln] w by simp
    then have "contribution c' k2 sln = None"
      using f by (simp add: contribution_def split: option.splits)
    then show ?thesis using wildcard_no_contribution[OF wf f] by simp
  next
    case k
    have fs: "fst sln \<noteq> None" using contributors_concrete[OF wf k(1)] .
    have mc': "map_of (sln_configurations_map c') sln = Some sln" using S(1)[of sln] k by simp
    from S(4)[OF k(1)] obtain r' r where r': "map_of (settings c') sln = Some r'"
        "resolved c sln = Some r" "map_of r' = (map_of r)(key \<mapsto> PList (residual_of c key sln))"
      by blast
    from k(1) obtain l where l: "contribution c key sln = Some l"
      by (auto simp: contributors_iff)
    then obtain m where m: "map_of (sln_configurations_map c) sln = Some m" "fst m \<noteq> None"
      by (auto simp: contribution_def split: option.splits if_splits)
    have rm: "map_of (settings c) m = Some r" using r'(2) m(1) by (simp add: resolved_def)
    have new: "contribution c' k2 sln = map_option seq_items (map_of r' k2)"
      using contribution_lookup[OF mc' fs] r'(1) by (simp add: lookup_def)
    have old: "contribution c k2 sln = map_option seq_items (map_of r k2)"
      using contribution_lookup[OF m] rm by (simp add: lookup_def)
    show ?thesis using new old r'(3) l by simp
  next
    case o
    have mc': "map_of (sln_configurations_map c') sln = map_of (sln_configurations_map c) sln"
      using S(1)[of sln] o by simp
    show ?thesis
    proof (cases "map_of (sln_configurations_map c) sln")
      case None
      then show ?thesis using mc' by (simp add: contribution_def)
    next
      case (Some m)
      show ?thesis
      proof (cases "fst m = None")
        case True
        then show ?thesis using Some mc' by (simp add: contribution_def split: option.splits)
      next
        case False
        have present: "map_of (settings c) m \<noteq> None" using S(7)[OF Some False] .
        have nk: "contribution c key sln = None" using o by (simp add: contributors_iff)
        have cm': "contribution c' k2 sln = map_option seq_items (lookup (settings c') m k2)"
          using contribution_lookup[of c' sln m k2] mc' Some False by simp
        have cm: "\<And>k. contribution c k sln = map_option seq_items (lookup (settings c) m k)"
          using contribution_lookup[OF Some False] by simp
        have nw: "m \<notin> wild ` ?A" using False by auto
        show ?thesis
        proof (cases "m \<in> ?Ks")
          case False
          then have "map_of (settings c') m = map_of (settings c) m"
            using S(6)[of m] nw \<open>fst m \<noteq> None\<close> by simp
          then have "lookup (settings c') m k2 = lookup (settings c) m k2"
            by (simp add: lookup_def)
          then show ?thesis using cm' cm[of k2] cm[of key] nk by auto
        next
          case True
          from S(4)[OF True] obtain r' r where r': "map_of (settings c') m = Some r'"
              "resolved c m = Some r" "map_of r' = (map_of r)(key \<mapsto> PList (residual_of c key m))"
            by blast
          have own: "map_of (sln_configurations_map c) m = Some m"
            using contributors_own[OF wf True present] .
          then have rm: "map_of (settings c) m = Some r" using r'(2) by (simp add: resolved_def)
          have "contribution c key m \<noteq> None" using True by (simp add: contributors_iff)
          then have "lookup (settings c) m key \<noteq> None"
            using contribution_lookup[OF own False, of key] by auto
          then have "contribution c key sln \<noteq> None" using cm[of key] by auto
          then show ?thesis using nk by simp
        qed
      qed
    qed
  qed
qed

lemma well_formed_merge_key:
  assumes wf: "well_formed c" and run: "merge_key key c = Inr c'"
  shows "well_formed c'"
proof -
  let ?A = "archs (map fst (sln_configurations_map c))"
  let ?Ks = "contributors c key"
  note S = merge_key_summary[OF wf run]
  have "fst (snd e) = None
          \<or> (fst (fst e) \<noteq> None \<and> (map_of (settings c') (fst e) = None \<or> snd e = fst e))"
    if e: "e \<in> set (sln_configurations_map c')" for e
  proof -
    have me: "map_of (sln_configurations_map c') (fst e) = Some (snd e)"
      using e S(3) by (simp add: map_of_eq_Some_iff)
    consider (w) "fst e \<in> wild ` ?A" | (k) "fst e \<in> ?Ks" "fst e \<notin> wild ` ?A"
      | (o) "fst e \<notin> wild ` ?A \<union> ?Ks" by blast
    then show ?thesis
    proof cases
      case w
      then have "snd e = fst e" using me S(1)[of "fst e"] by simp
      then show ?thesis using w by auto
    next
      case k
      then have "snd e = fst e" using me S(1)[of "fst e"] by simp
      then show ?thesis using contributors_concrete[OF wf k(1)] by simp
    next
      case o
      then have m: "map_of (sln_configurations_map c) (fst e) = Some (snd e)"
        using me S(1)[of "fst e"] by simp
      from well_formed_entry[OF wf m] show ?thesis
      proof
        assume "fst (snd e) = None"
        then show ?thesis by simp
      next
        assume a: "fst (fst e) \<noteq> None \<and> (map_of (settings c) (fst e) = None \<or> snd e = fst e)"
        then have "map_of (settings c') (fst e) = map_of (settings c) (fst e)"
          using S(6)[OF o] by simp
        then show ?thesis using a by auto
      qed
    qed
  qed
  then show ?thesis using S(3) by (simp add: well_formed_def list_all_iff)
qed

lemma contributions_after:
  assumes wf: "well_formed c" and run: "merge_key key c = Inr c'"
  shows "contributions c' k2 a =
           (if k2 = key
            then map (\<lambda>e. (fst e, residual_of c key (fst e))) (contributions c key a)
            else contributions c k2 a)"
proof -
  let ?A = "archs (map fst (sln_configurations_map c))"
  let ?slns = "map fst (sln_configurations_map c)"
  note S = merge_key_summary[OF wf run]
  note ca = contribution_after[OF wf run]
  from S(2) obtain new where new: "map fst (sln_configurations_map c') = ?slns @ new"
      "set new \<subseteq> wild ` ?A" by blast
  have wf': "well_formed c'" using well_formed_merge_key[OF wf run] .
  have "\<And>w. w \<in> set new \<Longrightarrow> contribution c' k2 w = None"
    using new(2) wildcard_no_contribution[OF wf'] by fastforce
  then have tail: "filter (\<lambda>sln. snd sln = Some a \<and> contribution c' k2 sln \<noteq> None) new = []"
    by (simp add: filter_empty_conv)
  have eq: "contributions c' k2 a = contributing c' k2 a ?slns"
    unfolding contributions_def new(1) contributing_def filter_append tail by simp
  show ?thesis
  proof (cases "k2 = key")
    case False
    then have "\<And>sln. contribution c' k2 sln = contribution c k2 sln" using ca by simp
    then show ?thesis using False eq by (simp add: contributions_def contributing_def)
  next
    case True
    have c1: "\<And>sln. (contribution c' key sln \<noteq> None) = (contribution c key sln \<noteq> None)"
      using ca[of key] by simp
    have c2: "\<And>sln. contribution c key sln \<noteq> None \<Longrightarrow>
                 the (contribution c' key sln) = residual_of c key sln"
      using ca[of key] by auto
    show ?thesis
      using True eq c1 c2
      by (simp add: contributions_def contributing_def comp_def)
  qed
qed

lemma frame_merge_key:
  assumes wf: "well_formed c" and run: "merge_key key c = Inr c'"
    and r: "map_of (settings c) k = Some r"
  shows "\<exists>r'. map_of (settings c') k = Some r'
           \<and> (\<forall>k2. k2 \<noteq> key \<longrightarrow> map_of r' k2 = map_of r k2)"
proof -
  let ?A = "archs (map fst (sln_configurations_map c))"
  let ?Ks = "contributors c key"
  note S = merge_key_summary[OF wf run]
  consider (w) a where "a \<in> ?A" "k = wild a" | (k) "k \<in> ?Ks" "k \<notin> wild ` ?A"
    | (o) "k \<notin> wild ` ?A \<union> ?Ks" by blast
  then show ?thesis
  proof cases
    case w
    from S(5)[OF w(1)] obtain r' r0 where "map_of (settings c') (wild a) = Some r'"
        "map_of r' = (map_of r0)(key \<mapsto> PList (common_list c key a))"
        "map_of (settings c) (wild a) = Some r0
           \<or> (map_of (settings c) (wild a) = None \<and> r0 = init_record (utils c) (wild a))"
      by blast
    then show ?thesis using r w(2) by auto
  next
    case k
    from S(4)[OF k(1)] obtain r' r1 where r': "map_of (settings c') k = Some r'"
        "resolved c k = Some r1" "map_of r' = (map_of r1)(key \<mapsto> PList (residual_of c key k))"
      by blast
    have "map_of (sln_configurations_map c) k = Some k"
      using contributors_own[OF wf k(1)] r by simp
    then have "r1 = r" using r'(2) r by (simp add: resolved_def)
    then show ?thesis using r' by auto
  next
    case o
    then have "map_of (settings c') k = map_of (settings c) k" using S(6)[OF o] r by simp
    then show ?thesis using r by simp
  qed
qed

subsection \<open>The lists stored by the pass for a key\<close>

lemma common_values_cong:
  "contributions c' k a = contributions c k a \<Longrightarrow> common_values c' k a = common_values c k a"
  by (simp add: common_values_def)

lemma common_list_cong:
  "contributions c' k a = contributions c k a \<Longrightarrow> common_list c' k a = common_list c k a"
  by (simp add: common_list_def common_values_def)

lemma contributions_arch:
  assumes "(sln, l) \<in> set (contributions c key a)"
  shows "a \<in> archs (map fst (sln_configurations_map c))" and "sln \<in> contributors c key"
    and "residual_of c key sln = filter (\<lambda>x. x \<notin> common_values c key a) l"
proof -
  from assms have m: "sln \<in> set (map fst (sln_configurations_map c))" "snd sln = Some a"
      "contribution c key sln = Some l"
    by (simp_all add: contributions_mem)
  show "a \<in> archs (map fst (sln_configurations_map c))"
    using m(1,2) by (force simp: archs_def)
  show "sln \<in> contributors c key" using m(3) by (simp add: contributors_iff)
  show "residual_of c key sln = filter (\<lambda>x. x \<notin> common_values c key a) l"
    using m(2,3) by (simp add: residual_of_def)
qed

lemma merge_key_residual:
  assumes wf: "well_formed c" and run: "merge_key key c = Inr c'"
    and e: "(sln, l) \<in> set (contributions c key a)"
  shows "lookup (settings c') sln key = Some (PList (filter (\<lambda>x. x \<notin> common_values c key a) l))"
proof -
  note ca = contributions_arch[OF e]
  from merge_key_summary(4)[OF wf run ca(2)] obtain r' r where
    "map_of (settings c') sln = Some r'"
    "map_of r' = (map_of r)(key \<mapsto> PList (residual_of c key sln))"
    by blast
  then show ?thesis using ca(3) by (simp add: lookup_def)
qed

lemma merge_key_common:
  assumes wf: "well_formed c" and run: "merge_key key c = Inr c'"
    and a: "a \<in> archs (map fst (sln_configurations_map c))"
  shows "lookup (settings c') (wild a) key = Some (PList (common_list c key a))"
proof -
  from merge_key_summary(5)[OF wf run a] obtain r r0 where
    "map_of (settings c') (wild a) = Some r"
    "map_of r = (map_of r0)(key \<mapsto> PList (common_list c key a))"
    by blast
  then show ?thesis by (simp add: lookup_def)
qed

lemma archs_after:
  assumes wf: "well_formed c" and run: "merge_key key c = Inr c'"
  shows "archs (map fst (sln_configurations_map c')) = archs (map fst (sln_configurations_map c))"
proof -
  from merge_key_summary(2)[OF wf run] obtain new where
    new: "map fst (sln_configurations_map c') = map fst (sln_configurations_map c) @ new"
      "set new \<subseteq> wild ` archs (map fst (sln_configurations_map c))"
    by blast
  have "archs new \<subseteq> archs (map fst (sln_configurations_map c))"
    using new(2) by (force simp: archs_def)
  then show ?thesis unfolding new(1) by (auto simp: archs_def)
qed

subsection \<open>The loop over the keys\<close>

lemma merge_keys_invariants:
  assumes "for_each merge_key ks c = Inr c'" and "well_formed c"
  shows "well_formed c'"
    and "utils c' = utils c"
    and "archs (map fst (sln_configurations_map c')) = archs (map fst (sln_configurations_map c))"
    and "\<And>k a. k \<notin> set ks \<Longrightarrow> contributions c' k a = contributions c k a"
    and "\<And>k r. map_of (settings c) k = Some r \<Longrightarrow>
           \<exists>r'. map_of (settings c') k = Some r' \<and> (\<forall>k2. k2 \<notin> set ks \<longrightarrow> map_of r' k2 = map_of r k2)"
  using assms
proof (induction ks arbitrary: c)
  case Nil
  { case 1 then show ?case by simp }
  { case 2 then show ?case by simp }
  { case 3 then show ?case by simp }
  { case 4 then show ?case by simp }
  { case 5 then show ?case by simp }
next
  case (Cons k1 ks)
  { case 1
    from 1(1) obtain c1 where s: "merge_key k1 c = Inr c1" and r: "for_each merge_key ks c1 = Inr c'"
      by (auto split: sum.splits)
    show ?case using Cons.IH(1)[OF r well_formed_merge_key[OF 1(2) s]] . }
  { case 2
    from 2(1) obtain c1 where s: "merge_key k1 c = Inr c1" and r: "for_each merge_key ks c1 = Inr c'"
      by (auto split: sum.splits)
    show ?case
      using Cons.IH(2)[OF r well_formed_merge_key[OF 2(2) s]] merge_key_summary(9)[OF 2(2) s]
      by simp }
  { case 3
    from 3(1) obtain c1 where s: "merge_key k1 c = Inr c1" and r: "for_each merge_key ks c1 = Inr c'"
      by (auto split: sum.splits)
    show ?case
      using Cons.IH(3)[OF r well_formed_merge_key[OF 3(2) s]] archs_after[OF 3(2) s] by simp }
  { case (4 k a)
    from 4(2) obtain c1 where s: "merge_key k1 c = Inr c1" and r: "for_each merge_key ks c1 = Inr c'"
      by (auto split: sum.splits)
    have "contributions c1 k a = contributions c k a"
      using contributions_after[OF 4(3) s, of k a] 4(1) by simp
    moreover have "contributions c' k a = contributions c1 k a"
      using Cons.IH(4)[OF _ r well_formed_merge_key[OF 4(3) s], of k a] 4(1) by simp
    ultimately show ?case by simp }
  { case (5 k r)
    from 5(2) obtain c1 where s: "merge_key k1 c = Inr c1" and rr: "for_each merge_key ks c1 = Inr c'"
      by (auto split: sum.splits)
    from frame_merge_key[OF 5(3) s 5(1)] obtain r1 where r1: "map_of (settings c1) k = Some r1"
        "\<forall>k2. k2 \<noteq> k1 \<longrightarrow> map_of r1 k2 = map_of r k2" by blast
    from Cons.IH(5)[OF r1(1) rr well_formed_merge_key[OF 5(3) s]] obtain r' where
      "map_of (settings c') k = Some r'" "\<forall>k2. k2 \<notin> set ks \<longrightarrow> map_of r' k2 = map_of r1 k2"
      by blast
    then show ?case using r1(2) by auto }
qed

lemma lookup_frame:
  assumes "for_each merge_key ks c = Inr c'" and "well_formed c"
    and "lookup (settings c) k key = Some v" and "key \<notin> set ks"
  shows "lookup (settings c') k key = Some v"
proof -
  from assms(3) obtain r where r: "map_of (settings c) k = Some r" "map_of r key = Some v"
    by (auto simp: lookup_def split: option.splits)
  from merge_keys_invariants(5)[OF assms(1,2) r(1)] assms(4) r(2)
  show ?thesis by (auto simp: lookup_def)
qed

text \<open>After the loop over distinct keys: the lists stored for one of the keys.\<close>

lemma merge_keys_result:
  assumes "for_each merge_key ks c = Inr c'" and "well_formed c" and "distinct ks"
    and "key \<in> set ks"
  shows "\<And>sln l a. (sln, l) \<in> set (contributions c key a) \<Longrightarrow>
           lookup (settings c') sln key
             = Some (PList (filter (\<lambda>x. x \<notin> common_values c key a) l))"
    and "\<And>a. a \<in> archs (map fst (sln_configurations_map c)) \<Longrightarrow>
           lookup (settings c') (wild a) key = Some (PList (common_list c key a))"
    and "\<And>a. contributions c' key a
           = map (\<lambda>e. (fst e, filter (\<lambda>x. x \<notin> common_values c key a) (snd e)))
               (contributions c key a)"
  using assms
proof (induction ks arbitrary: c)
  case Nil
  { case 1 then show ?case by simp }
  { case 2 then show ?case by simp }
  { case 3 then show ?case by simp }
next
  case (Cons k1 ks)
  { case (1 sln l a)
    from 1(2) obtain c1 where s: "merge_key k1 c = Inr c1" and r: "for_each merge_key ks c1 = Inr c'"
      by (auto split: sum.splits)
    have wf1: "well_formed c1" using well_formed_merge_key[OF 1(3) s] .
    show ?case
    proof (cases "key = k1")
      case True
      then have "key \<notin> set ks" using 1(4) by simp
      then show ?thesis
        using lookup_frame[OF r wf1 merge_key_residual[OF 1(3) s[folded True] 1(1)]] by simp
    next
      case False
      then have k: "key \<in> set ks" "distinct ks" using 1(4,5) by simp_all
      have eq: "contributions c1 key a = contributions c key a"
        using contributions_after[OF 1(3) s, of key a] False by simp
      show ?thesis
        using Cons.IH(1)[OF _ r wf1 k(2) k(1), of sln l a] 1(1) eq common_values_cong[OF eq]
        by simp
    qed }
  { case (2 a)
    from 2(2) obtain c1 where s: "merge_key k1 c = Inr c1" and r: "for_each merge_key ks c1 = Inr c'"
      by (auto split: sum.splits)
    have wf1: "well_formed c1" using well_formed_merge_key[OF 2(3) s] .
    show ?case
    proof (cases "key = k1")
      case True
      then have "key \<notin> set ks" using 2(4) by simp
      then show ?thesis
        using lookup_frame[OF r wf1 merge_key_common[OF 2(3) s[folded True] 2(1)]] by simp
    next
      case False
      then have k: "key \<in> set ks" "distinct ks" using 2(4,5) by simp_all
      have eq: "contributions c1 key a = contributions c key a"
        using contributions_after[OF 2(3) s, of key a] False by simp
      have "a \<in> archs (map fst (sln_configurations_map c1))"
        using 2(1) archs_after[OF 2(3) s] by simp
      then show ?thesis
        using Cons.IH(2)[OF _ r wf1 k(2) k(1), of a] common_list_cong[OF eq] by simp
    qed }
  { case (3 a)
    from 3(1) obtain c1 where s: "merge_key k1 c = Inr c1" and r: "for_each merge_key ks c1 = Inr c'"
      by (auto split: sum.splits)
    have wf1: "well_formed c1" using well_formed_merge_key[OF 3(2) s] .
    show ?case
    proof (cases "key = k1")
      case True
      then have nk: "key \<notin> set ks" using 3(3) by simp
      have "contributions c1 key a
              = map (\<lambda>e. (fst e, residual_of c key (fst e))) (contributions c key a)"
        using contributions_after[OF 3(2) s, of key a] True by simp
      also have "\<dots> = map (\<lambda>e. (fst e, filter (\<lambda>x. x \<notin> common_values c key a) (snd e)))
                         (contributions c key a)"
        using contributions_arch(3)[of _ _ c key a] by (intro map_cong refl) (metis prod.collapse)
      finally show ?thesis using merge_keys_invariants(4)[OF r wf1 nk, of a] by simp
    next
      case False
      then have k: "key \<in> set ks" "distinct ks" using 3(3,4) by simp_all
      have eq: "contributions c1 key a = contributions c key a"
        using contributions_after[OF 3(2) s, of key a] False by simp
      show ?thesis
        using Cons.IH(3)[OF r wf1 k(2) k(1), of a] eq common_values_cong[OF eq] by simp
    qed }
qed

section \<open>The merged store\<close>

subsection \<open>Common lists and residual lists\<close>

lemmas merge_eval =
  merge_keys_def merge_key_def intersection_pass_def intersection_step_def Let_def
  init_context_current_setting_def get_order_of_common_settings_def order_loop_unfold
  get_common_ordered_settings_def common_arch_def remove_common_settings_from_context_def
  remove_common_arch_def remove_common_step_def update_settings_at_context_def commit_step_def

lemma merge_data_settings_root:
  "merge_data_settings (ContextTree c fcs) = Inr t' \<Longrightarrow> merge_keys c = Inr (ctx t')"
  by (auto split: sum.splits option.splits)

definition scenario_merged :: conv_context where
  "scenario_merged =
     scenario_context
       \<lparr>settings := [((Some ''Debug'', Some ''x64''), [(''defines'', PList [''Z''])]),
                     ((Some ''Release'', Some ''x64''), [(''defines'', PList [''W''])]),
                     ((None, Some ''x64''), [(''defines'', PList [''X'', ''Y''])])],
        sln_configurations_map :=
          [((Some ''Debug'', Some ''x64''), (Some ''Debug'', Some ''x64'')),
           ((Some ''Release'', Some ''x64''), (Some ''Release'', Some ''x64'')),
           ((None, Some ''x64''), (None, Some ''x64''))],
        current_setting := (None, Some ''x64'')\<rparr>"

lemma scenario_merge_keys: "merge_keys scenario_context = Inr scenario_merged"
proof -
  have sets: "{''X'', ''Y'', ''Z''} \<inter> {''Y'', ''X'', ''W''} = {''X'', ''Y''}" by auto
  show ?thesis
    by (simp add: merge_eval scenario_context_def scenario_utils_def scenario_merged_def sets)
qed

lemma scenario_merge_again:
  "merge_keys scenario_merged
     = Inr (scenario_merged
              \<lparr>settings := [((Some ''Debug'', Some ''x64''), [(''defines'', PList [''Z''])]),
                     ((Some ''Release'', Some ''x64''), [(''defines'', PList [''W''])]),
                     ((None, Some ''x64''), [(''defines'', PList [])])]\<rparr>)"
  by (simp add: merge_eval scenario_context_def scenario_utils_def scenario_merged_def)

definition alias_utils :: utils where
  "alias_utils = \<lparr>lists_of_settings_to_merge = [''k1'', ''k2''], init_record = (\<lambda>k. [])\<rparr>"

definition alias_context :: conv_context where
  "alias_context =
     \<lparr>settings = [((Some ''D'', Some ''x''), [(''k1'', PList [''A'']), (''k2'', PList [''P''])]),
                  ((Some ''R'', Some ''x''), [(''k1'', PList [''B'']), (''k2'', PList [''Q''])])],
      sln_configurations_map =
        [((Some ''D'', Some ''x''), (Some ''R'', Some ''x'')),
         ((Some ''R'', Some ''x''), (Some ''R'', Some ''x''))],
      configurations_to_parse = {},
      current_setting = (None, None),
      vcxproj_path = ''p.vcxproj'',
      messages = [],
      utils = alias_utils\<rparr>"

definition alias_merged :: conv_context where
  "alias_merged =
     alias_context
       \<lparr>settings := [((Some ''D'', Some ''x''), [(''k1'', PList []), (''k2'', PList [''P''])]),
                     ((Some ''R'', Some ''x''), [(''k1'', PList []), (''k2'', PList [''Q''])]),
                     ((None, Some ''x''), [(''k1'', PList [''B'']), (''k2'', PList [])])],
        sln_configurations_map :=
          [((Some ''D'', Some ''x''), (Some ''D'', Some ''x'')),
           ((Some ''R'', Some ''x''), (Some ''R'', Some ''x'')),
           ((None, Some ''x''), (None, Some ''x''))],
        current_setting := (None, Some ''x'')\<rparr>"

lemma alias_merge_keys: "merge_keys alias_context = Inr alias_merged"
  by (simp add: merge_eval alias_context_def alias_utils_def alias_merged_def)


lemma common_values_subset:
  "e \<in> set (contributions c key a) \<Longrightarrow> common_values c key a \<subseteq> set (snd e)"
  unfolding common_values_def by blast

text \<open>
  C1, as amended: let the configuration map be well formed (distinct keys, wildcard keys
  resolving to wildcard keys, and every solution configuration that has a record of its own
  in the store resolving to itself or to a wildcard key) and the mergeable keys be
  distinct. When \<open>merge_data_settings\<close> returns, then for every mergeable key and every
  architecture with a contributing configuration, the list stored under the wildcard key
  holds each value once and holds exactly the values present in the original list of every
  contributing configuration; every contributing configuration's list is its original
  list without those values, and the two recombine, as sets, to the original list. The
  original list of a solution configuration is the one its resolved record holds in the
  input store.
\<close>

theorem merge_data_settings_common_residual:
  assumes run: "merge_data_settings (ContextTree c fcs) = Inr t'"
    and wf: "well_formed c"
    and dk: "distinct (lists_of_settings_to_merge (utils c))"
    and key: "key \<in> set (lists_of_settings_to_merge (utils c))"
    and ne: "contributions c key a \<noteq> []"
  shows "\<exists>common.
           lookup (settings (ctx t')) (None, Some a) key = Some (PList common)
         \<and> distinct common
         \<and> set common = (\<Inter>e \<in> set (contributions c key a). set (snd e))
         \<and> list_all
              (\<lambda>e. lookup (settings (ctx t')) (fst e) key
                       = Some (PList (filter (\<lambda>x. x \<notin> set common) (snd e)))
                   \<and> set common \<union> set (filter (\<lambda>x. x \<notin> set common) (snd e)) = set (snd e))
              (contributions c key a)"
proof -
  have mk: "for_each merge_key (lists_of_settings_to_merge (utils c)) c = Inr (ctx t')"
    using merge_data_settings_root[OF run] by (simp add: merge_keys_def)
  note R = merge_keys_result[OF mk wf dk key]
  from ne obtain e0 where e0: "e0 \<in> set (contributions c key a)"
    by (cases "contributions c key a") auto
  then have a: "a \<in> archs (map fst (sln_configurations_map c))"
    using contributions_arch(1)[of "fst e0" "snd e0" c key a] by simp
  let ?common = "common_list c key a"
  have cs: "set ?common = common_values c key a" using common_list_set[OF ne] .
  have "lookup (settings (ctx t')) (fst e) key
                       = Some (PList (filter (\<lambda>x. x \<notin> set ?common) (snd e)))
                   \<and> set ?common \<union> set (filter (\<lambda>x. x \<notin> set ?common) (snd e)) = set (snd e)"
    if e: "e \<in> set (contributions c key a)" for e
  proof -
    have "lookup (settings (ctx t')) (fst e) key
            = Some (PList (filter (\<lambda>x. x \<notin> common_values c key a) (snd e)))"
      using R(1)[of "fst e" "snd e" a] e by simp
    moreover have "common_values c key a \<subseteq> set (snd e)" using common_values_subset[OF e] .
    ultimately show ?thesis unfolding cs by auto
  qed
  then have "list_all
              (\<lambda>e. lookup (settings (ctx t')) (fst e) key
                       = Some (PList (filter (\<lambda>x. x \<notin> set ?common) (snd e)))
                   \<and> set ?common \<union> set (filter (\<lambda>x. x \<notin> set ?common) (snd e)) = set (snd e))
              (contributions c key a)"
    by (simp add: list_all_iff)
  moreover have "lookup (settings (ctx t')) (None, Some a) key = Some (PList ?common)"
    using R(2)[OF a] .
  moreover have "distinct ?common" by (rule common_list_distinct)
  moreover have "set ?common = (\<Inter>e \<in> set (contributions c key a). set (snd e))"
    using cs by (simp add: common_values_def)
  ultimately show ?thesis by blast
qed

lemma scenario_well_formed: "well_formed scenario_context"
  by (simp add: well_formed_def scenario_context_def)

lemma scenario_contributions:
  "contributions scenario_context ''defines'' ''x64''
     = [((Some ''Debug'', Some ''x64''), [''X'', ''Y'', ''Z'']),
        ((Some ''Release'', Some ''x64''), [''Y'', ''X'', ''W''])]"
  by (simp add: contributions_def contributing_def contribution_def lookup_def
        scenario_context_def)

lemma scenario_run:
  "merge_data_settings (ContextTree scenario_context None) = Inr (ContextTree scenario_merged None)"
  by (simp add: scenario_merge_keys)

theorem merge_data_settings_common_residual_witness:
  "merge_data_settings (ContextTree scenario_context None) = Inr (ContextTree scenario_merged None)
   \<and> well_formed scenario_context
   \<and> distinct (lists_of_settings_to_merge (utils scenario_context))
   \<and> ''defines'' \<in> set (lists_of_settings_to_merge (utils scenario_context))
   \<and> contributions scenario_context ''defines'' ''x64'' \<noteq> []
   \<and> (\<exists>common.
           lookup (settings scenario_merged) (None, Some ''x64'') ''defines'' = Some (PList common)
         \<and> distinct common
         \<and> set common = {''X'', ''Y''}
         \<and> lookup (settings scenario_merged) (Some ''Debug'', Some ''x64'') ''defines''
               = Some (PList (filter (\<lambda>x. x \<notin> set common) [''X'', ''Y'', ''Z'']))
         \<and> lookup (settings scenario_merged) (Some ''Release'', Some ''x64'') ''defines''
               = Some (PList (filter (\<lambda>x. x \<notin> set common) [''Y'', ''X'', ''W''])))"
proof -
  have dk: "distinct (lists_of_settings_to_merge (utils scenario_context))"
    and key: "''defines'' \<in> set (lists_of_settings_to_merge (utils scenario_context))"
    by (simp_all add: scenario_context_def scenario_utils_def)
  have ne: "contributions scenario_context ''defines'' ''x64'' \<noteq> []"
    by (simp add: scenario_contributions)
  have sets: "{''X'', ''Y'', ''Z''} \<inter> {''Y'', ''X'', ''W''} = {''X'', ''Y''}" by auto
  from merge_data_settings_common_residual[OF scenario_run scenario_well_formed dk key ne]
  obtain common where c:
    "lookup (settings (ctx (ContextTree scenario_merged None))) (None, Some ''x64'') ''defines''
       = Some (PList common)"
    "distinct common"
    "set common = (\<Inter>e \<in> set (contributions scenario_context ''defines'' ''x64''). set (snd e))"
    "list_all
       (\<lambda>e. lookup (settings (ctx (ContextTree scenario_merged None))) (fst e) ''defines''
                = Some (PList (filter (\<lambda>x. x \<notin> set common) (snd e)))
            \<and> set common \<union> set (filter (\<lambda>x. x \<notin> set common) (snd e)) = set (snd e))
       (contributions scenario_context ''defines'' ''x64'')"
    by blast
  have c1: "lookup (settings scenario_merged) (None, Some ''x64'') ''defines'' = Some (PList common)"
    using c(1) by simp
  have c3: "set common = {''X'', ''Y''}"
    using c(3) sets by (simp add: scenario_contributions)
  have c4: "lookup (settings scenario_merged) (Some ''Debug'', Some ''x64'') ''defines''
               = Some (PList (filter (\<lambda>x. x \<notin> set common) [''X'', ''Y'', ''Z'']))"
    and c5: "lookup (settings scenario_merged) (Some ''Release'', Some ''x64'') ''defines''
               = Some (PList (filter (\<lambda>x. x \<notin> set common) [''Y'', ''X'', ''W'']))"
    using c(4) by (simp_all add: scenario_contributions)
  show ?thesis
    using scenario_run scenario_well_formed dk key ne c1 c(2) c3 c4 c5 by blast
qed

lemma alias_run:
  "merge_data_settings (ContextTree alias_context None) = Inr (ContextTree alias_merged None)"
  by (simp add: alias_merge_keys)

text \<open>
  C1 fails as stated: the solution configuration \<open>(D, x)\<close> has a record of its own and
  resolves to \<open>(R, x)\<close>. The pass for \<open>k1\<close> reads the lists of \<open>(R, x)\<close> and writes
  into the record of \<open>(D, x)\<close>, to which \<open>(D, x)\<close> resolves from then on; so for
  \<open>k2\<close> the value \<open>Q\<close>, present in the list of every resolved record of the input, is not
  in the common list, and for \<open>k1\<close> the own list \<open>[A]\<close> of \<open>(D, x)\<close> is lost.
\<close>

theorem merge_data_settings_alias_counterexample:
  "merge_data_settings (ContextTree alias_context None) = Inr (ContextTree alias_merged None)
   \<and> contributions alias_context ''k2'' ''x''
       = [((Some ''D'', Some ''x''), [''Q'']), ((Some ''R'', Some ''x''), [''Q''])]
   \<and> lookup (settings alias_merged) (None, Some ''x'') ''k2'' = Some (PList [])
   \<and> lookup (settings alias_merged) (Some ''D'', Some ''x'') ''k2'' = Some (PList [''P''])
   \<and> lookup (settings alias_context) (Some ''D'', Some ''x'') ''k1'' = Some (PList [''A''])
   \<and> lookup (settings alias_merged) (None, Some ''x'') ''k1'' = Some (PList [''B''])
   \<and> lookup (settings alias_merged) (Some ''D'', Some ''x'') ''k1'' = Some (PList [])"
proof -
  have "contributions alias_context ''k2'' ''x''
       = [((Some ''D'', Some ''x''), [''Q'']), ((Some ''R'', Some ''x''), [''Q''])]"
    by (simp add: contributions_def contributing_def contribution_def lookup_def
          alias_context_def)
  moreover have "lookup (settings alias_merged) (None, Some ''x'') ''k2'' = Some (PList [])"
    "lookup (settings alias_merged) (Some ''D'', Some ''x'') ''k2'' = Some (PList [''P''])"
    "lookup (settings alias_context) (Some ''D'', Some ''x'') ''k1'' = Some (PList [''A''])"
    "lookup (settings alias_merged) (None, Some ''x'') ''k1'' = Some (PList [''B''])"
    "lookup (settings alias_merged) (Some ''D'', Some ''x'') ''k1'' = Some (PList [])"
    by (simp_all add: lookup_def alias_context_def alias_merged_def)
  ultimately show ?thesis using alias_run by blast
qed

subsection \<open>When nothing is shared\<close>

lemma merge_key_untouched:
  assumes wf: "well_formed c" and run: "merge_key k1 c = Inr c'"
    and r: "map_of (settings c) k = Some r" and fk: "fst k \<noteq> None"
    and nk: "k \<notin> contributors c key"
  shows "lookup (settings c') k key = map_of r key" and "k \<notin> contributors c' key"
proof -
  show "k \<notin> contributors c' key"
    using nk contribution_after[OF wf run, of key k] by (auto simp: contributors_iff)
  show "lookup (settings c') k key = map_of r key"
  proof (cases "k1 = key")
    case False
    from frame_merge_key[OF wf run r] obtain r' where
      "map_of (settings c') k = Some r'" "\<forall>k2. k2 \<noteq> k1 \<longrightarrow> map_of r' k2 = map_of r k2"
      by blast
    then show ?thesis using False by (simp add: lookup_def)
  next
    case True
    have "k \<notin> wild ` archs (map fst (sln_configurations_map c))" using fk by auto
    then have "map_of (settings c') k = map_of (settings c) k"
      using merge_key_summary(6)[OF wf run, of k] nk True r by simp
    then show ?thesis using r by (simp add: lookup_def)
  qed
qed

lemma merge_keys_untouched:
  assumes "for_each merge_key ks c = Inr c'" and "well_formed c"
    and "map_of (settings c) k = Some r" and "fst k \<noteq> None" and "k \<notin> contributors c key"
  shows "lookup (settings c') k key = map_of r key"
  using assms
proof (induction ks arbitrary: c r)
  case Nil
  then show ?case by (simp add: lookup_def)
next
  case (Cons k1 ks)
  from Cons.prems(1) obtain c1 where s: "merge_key k1 c = Inr c1"
      and rest: "for_each merge_key ks c1 = Inr c'"
    by (auto split: sum.splits)
  note u = merge_key_untouched[OF Cons.prems(2) s Cons.prems(3,4,5)]
  from u(1) obtain r1 where r1: "map_of (settings c1) k = Some r1" "map_of r1 key = map_of r key"
  proof (cases "map_of (settings c1) k")
    case None
    from frame_merge_key[OF Cons.prems(2) s Cons.prems(3)] None show ?thesis by auto
  next
    case (Some r1)
    then show ?thesis using u(1) that by (simp add: lookup_def)
  qed
  show ?case
    using Cons.IH[OF rest well_formed_merge_key[OF Cons.prems(2) s] r1(1) Cons.prems(4) u(2)] r1(2)
    by simp
qed

text \<open>
  C6, as amended: for a well-formed configuration map and distinct mergeable keys, when
  no value is shared by all contributing configurations of an architecture, the common
  list stored under the wildcard key is empty, every contributing configuration's list is
  its original list, and every record that the input store holds under a concrete key of
  that architecture has the same elements for the key as before.
\<close>

theorem merge_data_settings_unshared:
  assumes run: "merge_data_settings (ContextTree c fcs) = Inr t'"
    and wf: "well_formed c"
    and dk: "distinct (lists_of_settings_to_merge (utils c))"
    and key: "key \<in> set (lists_of_settings_to_merge (utils c))"
    and ne: "contributions c key a \<noteq> []"
    and unshared: "(\<Inter>e \<in> set (contributions c key a). set (snd e)) = {}"
  shows "lookup (settings (ctx t')) (None, Some a) key = Some (PList [])
       \<and> list_all (\<lambda>e. lookup (settings (ctx t')) (fst e) key = Some (PList (snd e)))
           (contributions c key a)
       \<and> (\<forall>k r. map_of (settings c) k = Some r \<and> fst k \<noteq> None \<and> snd k = Some a \<longrightarrow>
              map_option seq_items (lookup (settings (ctx t')) k key)
                = map_option seq_items (map_of r key))"
proof -
  have mk: "for_each merge_key (lists_of_settings_to_merge (utils c)) c = Inr (ctx t')"
    using merge_data_settings_root[OF run] by (simp add: merge_keys_def)
  note R = merge_keys_result[OF mk wf dk key]
  have cv: "common_values c key a = {}" using unshared by (simp add: common_values_def)
  from ne obtain e0 where e0: "e0 \<in> set (contributions c key a)"
    by (cases "contributions c key a") auto
  then have a: "a \<in> archs (map fst (sln_configurations_map c))"
    using contributions_arch(1)[of "fst e0" "snd e0" c key a] by simp
  have "set (common_list c key a) = {}" using common_list_set[OF ne] cv by simp
  then have p1: "lookup (settings (ctx t')) (None, Some a) key = Some (PList [])"
    using R(2)[OF a] by simp
  have res: "lookup (settings (ctx t')) sln key = Some (PList l)"
    if "(sln, l) \<in> set (contributions c key a)" for sln l
    using R(1)[OF that] cv by simp
  then have p2: "list_all (\<lambda>e. lookup (settings (ctx t')) (fst e) key = Some (PList (snd e)))
           (contributions c key a)"
    by (simp add: list_all_iff)
  have p3: "map_option seq_items (lookup (settings (ctx t')) k key)
                = map_option seq_items (map_of r key)"
    if k: "map_of (settings c) k = Some r" "fst k \<noteq> None" "snd k = Some a" for k r
  proof (cases "k \<in> contributors c key")
    case False
    then show ?thesis using merge_keys_untouched[OF mk wf k(1,2)] by simp
  next
    case True
    have own: "map_of (sln_configurations_map c) k = Some k"
      using contributors_own[OF wf True] k(1) by simp
    then have co: "contribution c key k = map_option seq_items (map_of r key)"
      using contribution_lookup[OF own k(2), of key] k(1) by (simp add: lookup_def)
    from True obtain l where l: "contribution c key k = Some l" by (auto simp: contributors_iff)
    have "k \<in> set (map fst (sln_configurations_map c))"
      using own by (force dest: map_of_SomeD)
    then have "(k, l) \<in> set (contributions c key a)" using l k(3) by (simp add: contributions_mem)
    then show ?thesis using res co l by simp
  qed
  show ?thesis using p1 p2 p3 by blast
qed

definition unshared_utils :: utils where
  "unshared_utils = \<lparr>lists_of_settings_to_merge = [''k''], init_record = (\<lambda>k. [])\<rparr>"

definition unshared_context :: conv_context where
  "unshared_context =
     \<lparr>settings = [((Some ''D'', Some ''x''), [(''k'', PList [''A''])]),
                  ((Some ''R'', Some ''x''), [(''k'', PList [''B''])])],
      sln_configurations_map =
        [((Some ''D'', Some ''x''), (Some ''D'', Some ''x'')),
         ((Some ''R'', Some ''x''), (Some ''R'', Some ''x''))],
      configurations_to_parse = {},
      current_setting = (None, None),
      vcxproj_path = ''p.vcxproj'',
      messages = [],
      utils = unshared_utils\<rparr>"

definition unshared_merged :: conv_context where
  "unshared_merged =
     unshared_context
       \<lparr>settings := [((Some ''D'', Some ''x''), [(''k'', PList [''A''])]),
                     ((Some ''R'', Some ''x''), [(''k'', PList [''B''])]),
                     ((None, Some ''x''), [(''k'', PList [])])],
        sln_configurations_map :=
          [((Some ''D'', Some ''x''), (Some ''D'', Some ''x'')),
           ((Some ''R'', Some ''x''), (Some ''R'', Some ''x'')),
           ((None, Some ''x''), (None, Some ''x''))],
        current_setting := (None, Some ''x'')\<rparr>"

lemma unshared_run:
  "merge_data_settings (ContextTree unshared_context None) = Inr (ContextTree unshared_merged None)"
  by (simp add: merge_eval unshared_context_def unshared_utils_def unshared_merged_def)

lemma unshared_contributions:
  "contributions unshared_context ''k'' ''x''
     = [((Some ''D'', Some ''x''), [''A'']), ((Some ''R'', Some ''x''), [''B''])]"
  by (simp add: contributions_def contributing_def contribution_def lookup_def
        unshared_context_def)

theorem merge_data_settings_unshared_witness:
  "merge_data_settings (ContextTree unshared_context None) = Inr (ContextTree unshared_merged None)
   \<and> well_formed unshared_context
   \<and> distinct (lists_of_settings_to_merge (utils unshared_context))
   \<and> ''k'' \<in> set (lists_of_settings_to_merge (utils unshared_context))
   \<and> contributions unshared_context ''k'' ''x'' \<noteq> []
   \<and> (\<Inter>e \<in> set (contributions unshared_context ''k'' ''x''). set (snd e)) = {}
   \<and> lookup (settings unshared_merged) (None, Some ''x'') ''k'' = Some (PList [])
   \<and> lookup (settings unshared_merged) (Some ''D'', Some ''x'') ''k'' = Some (PList [''A''])
   \<and> lookup (settings unshared_merged) (Some ''R'', Some ''x'') ''k'' = Some (PList [''B''])"
proof -
  have wf: "well_formed unshared_context"
    by (simp add: well_formed_def unshared_context_def)
  have dk: "distinct (lists_of_settings_to_merge (utils unshared_context))"
    and key: "''k'' \<in> set (lists_of_settings_to_merge (utils unshared_context))"
    by (simp_all add: unshared_context_def unshared_utils_def)
  have ne: "contributions unshared_context ''k'' ''x'' \<noteq> []"
    by (simp add: unshared_contributions)
  have un: "(\<Inter>e \<in> set (contributions unshared_context ''k'' ''x''). set (snd e)) = {}"
    by (simp add: unshared_contributions)
  note t = merge_data_settings_unshared[OF unshared_run wf dk key ne un]
  have c1: "lookup (settings unshared_merged) (None, Some ''x'') ''k'' = Some (PList [])"
    using t by simp
  have "list_all (\<lambda>e. lookup (settings unshared_merged) (fst e) ''k'' = Some (PList (snd e)))
           (contributions unshared_context ''k'' ''x'')"
    using t by simp
  then have c2: "lookup (settings unshared_merged) (Some ''D'', Some ''x'') ''k'' = Some (PList [''A''])"
    and c3: "lookup (settings unshared_merged) (Some ''R'', Some ''x'') ''k'' = Some (PList [''B''])"
    by (simp_all add: unshared_contributions)
  show ?thesis using unshared_run wf dk key ne un c1 c2 c3 by blast
qed

definition overwrite_context :: conv_context where
  "overwrite_context =
     unshared_context
       \<lparr>sln_configurations_map :=
          [((Some ''D'', Some ''x''), (Some ''R'', Some ''x'')),
           ((Some ''Q'', Some ''x''), (Some ''Q'', Some ''x''))],
        settings := [((Some ''D'', Some ''x''), [(''k'', PList [''A''])]),
                     ((Some ''R'', Some ''x''), [(''k'', PList [''B''])]),
                     ((Some ''Q'', Some ''x''), [(''k'', PList [''C''])])]\<rparr>"

definition overwrite_merged :: conv_context where
  "overwrite_merged =
     overwrite_context
       \<lparr>settings := [((Some ''D'', Some ''x''), [(''k'', PList [''B''])]),
                     ((Some ''R'', Some ''x''), [(''k'', PList [''B''])]),
                     ((Some ''Q'', Some ''x''), [(''k'', PList [''C''])]),
                     ((None, Some ''x''), [(''k'', PList [])])],
        sln_configurations_map :=
          [((Some ''D'', Some ''x''), (Some ''D'', Some ''x'')),
           ((Some ''Q'', Some ''x''), (Some ''Q'', Some ''x'')),
           ((None, Some ''x''), (None, Some ''x''))],
        current_setting := (None, Some ''x'')\<rparr>"

text \<open>
  C6 fails as stated: \<open>(D, x)\<close> has the list \<open>[A]\<close> in its own record and resolves to
  \<open>(R, x)\<close>, whose list is \<open>[B]\<close>. No value is shared with \<open>(Q, x)\<close>, and still the
  list of the store entry \<open>(D, x)\<close> is rewritten from \<open>[A]\<close> to \<open>[B]\<close>.
\<close>

theorem merge_data_settings_unshared_counterexample:
  "merge_data_settings (ContextTree overwrite_context None)
     = Inr (ContextTree overwrite_merged None)
   \<and> contributions overwrite_context ''k'' ''x''
       = [((Some ''D'', Some ''x''), [''B'']), ((Some ''Q'', Some ''x''), [''C''])]
   \<and> (\<Inter>e \<in> set (contributions overwrite_context ''k'' ''x''). set (snd e)) = {}
   \<and> lookup (settings overwrite_context) (Some ''D'', Some ''x'') ''k'' = Some (PList [''A''])
   \<and> lookup (settings overwrite_merged) (Some ''D'', Some ''x'') ''k'' = Some (PList [''B''])"
proof -
  have r: "merge_data_settings (ContextTree overwrite_context None)
     = Inr (ContextTree overwrite_merged None)"
    by (simp add: merge_eval overwrite_context_def unshared_context_def unshared_utils_def
          overwrite_merged_def)
  have c: "contributions overwrite_context ''k'' ''x''
       = [((Some ''D'', Some ''x''), [''B'']), ((Some ''Q'', Some ''x''), [''C''])]"
    by (simp add: contributions_def contributing_def contribution_def lookup_def
          overwrite_context_def unshared_context_def)
  have i: "(\<Inter>e \<in> set (contributions overwrite_context ''k'' ''x''). set (snd e)) = {}"
    by (simp add: c)
  have l: "lookup (settings overwrite_context) (Some ''D'', Some ''x'') ''k'' = Some (PList [''A''])"
    "lookup (settings overwrite_merged) (Some ''D'', Some ''x'') ''k'' = Some (PList [''B''])"
    by (simp_all add: lookup_def overwrite_context_def overwrite_merged_def)
  show ?thesis using r c i l by blast
qed

subsection \<open>Multiplicities\<close>

text \<open>
  The residual rewrite without any assumption on how the configurations resolve: the
  list written for an entry stays in the store while the others are written.
\<close>

definition written ::
  "conv_context \<Rightarrow> string \<Rightarrow> (config_key \<times> string list) list \<Rightarrow> conv_context \<Rightarrow> bool" where
  "written c1 key P c \<longleftrightarrow>
     sln_configurations_map c = remap (fst ` set P) (sln_configurations_map c1)
     \<and> list_all (\<lambda>e. lookup (settings c) (fst e) key = Some (PList (snd e))) P"

lemma written_step:
  assumes dk: "distinct (map fst (sln_configurations_map c1))"
    and inv: "written c1 key P c"
    and fresh: "fst e \<notin> fst ` set P"
    and ink: "fst e \<in> fst ` set (sln_configurations_map c1)"
    and step: "rewrite_step key e c = Inr c'"
  shows "written c1 key (P @ [e]) c'"
proof -
  from step obtain b where b: "base_record c (fst e) = Some b"
      and c': "c' = c\<lparr>settings := AList.update (fst e) (AList.update key (PList (snd e)) b)
                                     (settings c),
                        sln_configurations_map :=
                          AList.update (fst e) (fst e) (sln_configurations_map c)\<rparr>"
    by (auto simp: rewrite_step_def update_settings_at_context_eq split: option.splits)
  from inv have j1: "sln_configurations_map c = remap (fst ` set P) (sln_configurations_map c1)"
      and j2: "\<And>p. p \<in> set P \<Longrightarrow> lookup (settings c) (fst p) key = Some (PList (snd p))"
    by (simp_all add: written_def list_all_iff)
  have k1: "sln_configurations_map c' = remap (fst ` set (P @ [e])) (sln_configurations_map c1)"
    using update_remap[OF dk ink, of "fst ` set P"] by (simp add: c' j1)
  have k2: "lookup (settings c') (fst p) key = Some (PList (snd p))" if p: "p \<in> set (P @ [e])" for p
  proof (cases "p = e")
    case True
    then show ?thesis by (simp add: c' lookup_def update_conv')
  next
    case False
    then have pP: "p \<in> set P" using p by simp
    then have "fst p \<noteq> fst e" using fresh by (metis imageI)
    then show ?thesis using j2[OF pP] by (simp add: c' lookup_def update_conv')
  qed
  show ?thesis unfolding written_def using k1 k2 by (simp add: list_all_iff)
qed

lemma written_all:
  assumes dk: "distinct (map fst (sln_configurations_map c1))"
    and dW: "distinct (map fst W)"
    and iW: "fst ` set W \<subseteq> fst ` set (sln_configurations_map c1)"
    and run: "for_each (rewrite_step key) W c1 = Inr c2"
  shows "written c1 key W c2"
proof (rule for_each_invariant[where I = "written c1 key", OF run])
  show "written c1 key [] c1" by (simp add: written_def)
next
  fix pre x suf t t'
  assume W: "W = pre @ x # suf" and i: "written c1 key pre t"
    and b: "rewrite_step key x t = Inr t'"
  have "fst x \<notin> fst ` set pre" using dW W by auto
  moreover have "fst x \<in> fst ` set (sln_configurations_map c1)" using iW W by auto
  ultimately show "written c1 key (pre @ [x]) t'" using written_step[OF dk i _ _ b] by blast
qed

lemma merge_key_lists:
  assumes dk: "distinct (map fst (sln_configurations_map c))" and run: "merge_key key c = Inr c'"
  shows "\<And>sln l a. (sln, l) \<in> set (contributions c key a) \<Longrightarrow> fst sln \<noteq> None \<Longrightarrow>
           lookup (settings c') sln key
             = Some (PList (filter (\<lambda>x. x \<notin> common_values c key a) l))"
    and "\<And>a. a \<in> archs (map fst (sln_configurations_map c)) \<Longrightarrow>
           lookup (settings c') (wild a) key = Some (PList (common_list c key a))"
proof -
  let ?slns = "map fst (sln_configurations_map c)"
  let ?A = "archs ?slns"
  from run obtain c1 L S where ip: "intersection_pass key c = Inr (c1, L, S)"
    by (auto simp: merge_key_def split: sum.splits)
  then obtain c2 where rc: "remove_common_settings_from_context c1 L S key = Inr c2"
    using run by (auto simp: merge_key_def split: sum.splits)
  then obtain M where gm: "get_common_ordered_settings (get_order_of_common_settings L) S = Inr M"
      and cm: "for_each (commit_step key) M c2 = Inr c'"
    using run ip by (auto simp: merge_key_def split: sum.splits)
  have inv: "pass_inv c key ?slns (c1, L, S)" using intersection_pass_inv[OF ip dk] .
  note pl = pass_lists[OF inv]
  from inv have sd: "seeded c c1"
      and p3: "\<forall>sln \<in> set ?slns. contribution c key sln = None \<or> snd sln \<noteq> None"
    unfolding pass_inv_def by auto
  have m1: "sln_configurations_map c1 = sln_configurations_map c"
    using sd by (simp add: seeded_def)
  have flat_ok: "\<forall>g \<in> set L. snd g \<noteq> [] \<longrightarrow> map_of S (fst g) \<noteq> None"
  proof (intro ballI impI)
    fix g assume g: "g \<in> set L" "snd g \<noteq> []"
    then have "g \<in> set (map (\<lambda>a. (a, contributions c key a)) (map fst L))" using pl(2) by simp
    then have "snd g = contributions c key (fst g)" by auto
    then show "map_of S (fst g) \<noteq> None" using pl(4)[of "fst g"] g(2) by simp
  qed
  let ?W = "residuals S L"
  have rw: "for_each (rewrite_step key) ?W c1 = Inr c2"
    using rc remove_common_flat[OF flat_ok] by simp
  have setW: "set ?W = (\<lambda>sln. (sln, residual_of c key sln)) ` contributors c key"
    using residuals_set[OF pl(2) pl(3) pl(4) p3] by simp
  have dW: "distinct (map fst ?W)" using residuals_distinct[OF pl(2) pl(1) dk] .
  have iW: "fst ` set ?W \<subseteq> fst ` set (sln_configurations_map c1)"
  proof
    fix k assume "k \<in> fst ` set ?W"
    then have "k \<in> contributors c key" unfolding setW by (auto simp: image_image)
    then have "k \<in> set (map fst (sln_configurations_map c))" by (simp add: contributors_def)
    then show "k \<in> fst ` set (sln_configurations_map c1)" by (simp add: m1)
  qed
  have wr: "written c1 key ?W c2" using written_all[OF _ dW iW rw] dk m1 by simp
  have Meq: "M = map (\<lambda>a. (a, common_list c key a)) (map fst L)"
    using merged_settings_eq[OF pl(2) pl(1) pl(4) gm] .
  then have dM: "distinct (map fst M)" using pl(1) by (simp add: comp_def)
  have setM: "set M = (\<lambda>a. (a, common_list c key a)) ` ?A"
    using Meq pl(3) by (metis list.set_map)
  have fM: "fst ` set M = ?A" unfolding setM by (simp add: image_image)
  have ci: "commit_inv c2 key M c'" using commit_inv_all[OF cm dM] .
  from ci have q4: "\<And>k. k \<notin> wild ` ?A \<Longrightarrow> map_of (settings c') k = map_of (settings c2) k"
      and q5: "\<And>e. e \<in> set M \<Longrightarrow> \<exists>r. map_of (settings c2) (wild (fst e)) = Some r
            \<and> map_of (settings c') (wild (fst e)) = Some (AList.update key (PList (snd e)) r)"
    unfolding commit_inv_def fM by blast+
  show "\<And>sln l a. (sln, l) \<in> set (contributions c key a) \<Longrightarrow> fst sln \<noteq> None \<Longrightarrow>
           lookup (settings c') sln key
             = Some (PList (filter (\<lambda>x. x \<notin> common_values c key a) l))"
  proof -
    fix sln l a assume e: "(sln, l) \<in> set (contributions c key a)" and f: "fst sln \<noteq> None"
    note ca = contributions_arch[OF e]
    have "(sln, residual_of c key sln) \<in> set ?W" unfolding setW using ca(2) by blast
    then have "lookup (settings c2) sln key = Some (PList (residual_of c key sln))"
      using wr by (auto simp: written_def list_all_iff)
    moreover have "sln \<notin> wild ` ?A" using f by auto
    ultimately show "lookup (settings c') sln key
             = Some (PList (filter (\<lambda>x. x \<notin> common_values c key a) l))"
      using q4 ca(3) by (simp add: lookup_def)
  qed
  show "\<And>a. a \<in> ?A \<Longrightarrow> lookup (settings c') (wild a) key = Some (PList (common_list c key a))"
  proof -
    fix a assume "a \<in> ?A"
    then have "(a, common_list c key a) \<in> set M" unfolding setM by blast
    from q5[OF this] show "lookup (settings c') (wild a) key = Some (PList (common_list c key a))"
      by (auto simp: lookup_def update_conv')
  qed
qed

lemma count_list_distinct: "distinct xs \<Longrightarrow> x \<in> set xs \<Longrightarrow> count_list xs x = 1"
  by (induction xs) (auto simp: count_list_0_iff)

text \<open>
  C10: in the pass for a key, let a value of the intersection of an architecture occur
  more than once in the list a (concrete) solution configuration contributes. After the
  pass the common list under the wildcard key holds the value exactly once and the
  configuration's list holds it not at all, so the two lists together hold it fewer
  times than the original list did. The configuration map is a dictionary (distinct keys);
  the lists are those the pass reads when it starts.
\<close>

theorem merge_key_multiplicity:
  assumes run: "merge_key key c = Inr c'"
    and dk: "distinct (map fst (sln_configurations_map c))"
    and e: "(sln, l) \<in> set (contributions c key a)"
    and conc: "fst sln \<noteq> None"
    and v: "v \<in> (\<Inter>e \<in> set (contributions c key a). set (snd e))"
    and dup: "1 < count_list l v"
  shows "\<exists>common res.
           lookup (settings c') (None, Some a) key = Some (PList common)
         \<and> count_list common v = 1
         \<and> lookup (settings c') sln key = Some (PList res)
         \<and> count_list res v = 0
         \<and> count_list common v + count_list res v < count_list l v"
proof -
  note R = merge_key_lists[OF dk run]
  have ne: "contributions c key a \<noteq> []" using e by auto
  have cv: "v \<in> common_values c key a" using v by (simp add: common_values_def)
  have a: "a \<in> archs (map fst (sln_configurations_map c))" using contributions_arch(1)[OF e] .
  let ?common = "common_list c key a"
  let ?res = "filter (\<lambda>x. x \<notin> common_values c key a) l"
  have "v \<in> set ?common" using common_list_set[OF ne] cv by simp
  then have c1: "count_list ?common v = 1"
    using count_list_distinct[OF common_list_distinct] by blast
  have "v \<notin> set ?res" using cv by simp
  then have c0: "count_list ?res v = 0" by (simp add: count_list_0_iff)
  show ?thesis
    using R(1)[OF e conc] R(2)[OF a] c1 c0 dup
    by (intro exI[of _ ?common] exI[of _ ?res]) simp
qed

definition repeated_context :: conv_context where
  "repeated_context =
     scenario_context
       \<lparr>settings := [((Some ''Debug'', Some ''x64''), [(''defines'', PList [''V'', ''A'', ''V''])]),
                     ((Some ''Release'', Some ''x64''), [(''defines'', PList [''V'', ''B''])])]\<rparr>"

definition repeated_merged :: conv_context where
  "repeated_merged =
     scenario_merged
       \<lparr>settings := [((Some ''Debug'', Some ''x64''), [(''defines'', PList [''A''])]),
                     ((Some ''Release'', Some ''x64''), [(''defines'', PList [''B''])]),
                     ((None, Some ''x64''), [(''defines'', PList [''V''])])]\<rparr>"

lemma repeated_merge_key: "merge_key ''defines'' repeated_context = Inr repeated_merged"
proof -
  have sets: "{''V'', ''A''} \<inter> {''V'', ''B''} = {''V''}" by auto
  show ?thesis
    by (simp add: merge_eval repeated_context_def scenario_context_def scenario_utils_def
          repeated_merged_def scenario_merged_def sets)
qed

lemma repeated_contributions:
  "contributions repeated_context ''defines'' ''x64''
     = [((Some ''Debug'', Some ''x64''), [''V'', ''A'', ''V'']),
        ((Some ''Release'', Some ''x64''), [''V'', ''B''])]"
  by (simp add: contributions_def contributing_def contribution_def lookup_def
        repeated_context_def scenario_context_def)

theorem merge_key_multiplicity_witness:
  "merge_key ''defines'' repeated_context = Inr repeated_merged
   \<and> distinct (map fst (sln_configurations_map repeated_context))
   \<and> ((Some ''Debug'', Some ''x64''), [''V'', ''A'', ''V''])
        \<in> set (contributions repeated_context ''defines'' ''x64'')
   \<and> ''V'' \<in> (\<Inter>e \<in> set (contributions repeated_context ''defines'' ''x64''). set (snd e))
   \<and> 1 < count_list [''V'', ''A'', ''V''] ''V''
   \<and> (\<exists>common res.
           lookup (settings repeated_merged) (None, Some ''x64'') ''defines'' = Some (PList common)
         \<and> count_list common ''V'' = 1
         \<and> lookup (settings repeated_merged) (Some ''Debug'', Some ''x64'') ''defines''
             = Some (PList res)
         \<and> count_list res ''V'' = 0)"
proof -
  have dk: "distinct (map fst (sln_configurations_map repeated_context))"
    by (simp add: repeated_context_def scenario_context_def)
  have e: "((Some ''Debug'', Some ''x64''), [''V'', ''A'', ''V''])
        \<in> set (contributions repeated_context ''defines'' ''x64'')"
    by (simp add: repeated_contributions)
  have conc: "fst (Some ''Debug'', Some ''x64'') \<noteq> None" by simp
  have v: "''V'' \<in> (\<Inter>e \<in> set (contributions repeated_context ''defines'' ''x64''). set (snd e))"
    by (simp add: repeated_contributions)
  have dup: "1 < count_list [''V'', ''A'', ''V''] ''V''" by simp
  from merge_key_multiplicity[OF repeated_merge_key dk e conc v dup]
  have "\<exists>common res.
           lookup (settings repeated_merged) (None, Some ''x64'') ''defines'' = Some (PList common)
         \<and> count_list common ''V'' = 1
         \<and> lookup (settings repeated_merged) (Some ''Debug'', Some ''x64'') ''defines''
             = Some (PList res)
         \<and> count_list res ''V'' = 0"
    by blast
  then show ?thesis using repeated_merge_key dk e v dup by blast
qed

subsection \<open>A second run\<close>

lemma alist_eqI:
  assumes "distinct (map fst xs)" and "map fst xs = map fst ys" and "map_of xs = map_of ys"
  shows "xs = ys"
proof -
  have rebuild: "map (\<lambda>k. (k, the (map_of zs k))) (map fst zs) = zs"
    if "distinct (map fst zs)" for zs :: "('a \<times> 'b) list"
    using that
  proof (induction zs)
    case Nil
    then show ?case by simp
  next
    case (Cons z zs)
    have nz: "fst z \<notin> set (map fst zs)" using Cons.prems by simp
    have "map (\<lambda>k. (k, the (map_of (z # zs) k))) (map fst zs)
            = map (\<lambda>k. (k, the (map_of zs k))) (map fst zs)"
    proof (intro map_cong refl)
      fix k assume "k \<in> set (map fst zs)"
      then have "k \<noteq> fst z" using nz by blast
      then show "(k, the (map_of (z # zs) k)) = (k, the (map_of zs k))"
        by (cases z) simp
    qed
    moreover have "map (\<lambda>k. (k, the (map_of zs k))) (map fst zs) = zs"
      using Cons.IH Cons.prems by simp
    moreover have "the (map_of (z # zs) (fst z)) = snd z" by (cases z) simp
    ultimately have "map (\<lambda>k. (k, the (map_of (z # zs) k))) (fst z # map fst zs) = (fst z, snd z) # zs"
      by (simp only: list.map)
    then show ?case by simp
  qed
  have "distinct (map fst ys)" using assms(1,2) by simp
  from rebuild[OF assms(1)] rebuild[OF this] show ?thesis using assms(2,3) by simp
qed

text \<open>
  A configuration map is settled for a key when the wildcard key of every architecture
  and every contributing solution configuration resolve to themselves.
\<close>

definition settled :: "conv_context \<Rightarrow> string \<Rightarrow> bool" where
  "settled c key \<longleftrightarrow>
     (\<forall>a \<in> archs (map fst (sln_configurations_map c)).
         map_of (sln_configurations_map c) (wild a) = Some (wild a))
     \<and> (\<forall>k \<in> contributors c key. map_of (sln_configurations_map c) k = Some k)"

lemma contributors_after:
  assumes "well_formed c" and "merge_key k1 c = Inr c'"
  shows "contributors c' key = contributors c key"
proof -
  have "contribution c' key k \<noteq> None \<longleftrightarrow> contribution c key k \<noteq> None" for k
    using contribution_after[OF assms, of key k] by (cases "key = k1") auto
  then show ?thesis by (auto simp: contributors_iff)
qed

lemma settled_after_own:
  assumes wf: "well_formed c" and run: "merge_key key c = Inr c'"
  shows "settled c' key"
  unfolding settled_def contributors_after[OF wf run] archs_after[OF wf run]
  using merge_key_summary(1)[OF wf run] by simp

lemma settled_after_other:
  assumes wf: "well_formed c" and run: "merge_key k1 c = Inr c'" and s: "settled c key"
  shows "settled c' key"
  unfolding settled_def contributors_after[OF wf run] archs_after[OF wf run]
  using merge_key_summary(1)[OF wf run] s by (simp add: settled_def)

lemma settled_map_unchanged:
  assumes wf: "well_formed c" and run: "merge_key key c = Inr c'" and s: "settled c key"
  shows "sln_configurations_map c' = sln_configurations_map c"
proof -
  let ?A = "archs (map fst (sln_configurations_map c))"
  note S = merge_key_summary[OF wf run]
  have mo: "map_of (sln_configurations_map c') = map_of (sln_configurations_map c)"
  proof
    fix k
    show "map_of (sln_configurations_map c') k = map_of (sln_configurations_map c) k"
      using S(1)[of k] s by (auto simp: settled_def)
  qed
  from S(2) obtain new where new: "map fst (sln_configurations_map c')
        = map fst (sln_configurations_map c) @ new" "set new \<subseteq> wild ` ?A"
    by blast
  have "set new \<subseteq> set (map fst (sln_configurations_map c))"
  proof
    fix w assume "w \<in> set new"
    then obtain a where "a \<in> ?A" "w = wild a" using new(2) by blast
    then have "map_of (sln_configurations_map c) w \<noteq> None" using s by (simp add: settled_def)
    then show "w \<in> set (map fst (sln_configurations_map c))"
      by (simp add: map_of_eq_None_iff)
  qed
  moreover have "set (map fst (sln_configurations_map c)) \<inter> set new = {}"
    using S(3) unfolding new(1) by simp
  ultimately have "new = []" by (cases new) auto
  then have keys: "map fst (sln_configurations_map c') = map fst (sln_configurations_map c)"
    using new(1) by simp
  show ?thesis using alist_eqI[OF S(3) keys mo] .
qed

lemma merge_keys_settled:
  assumes "for_each merge_key ks c = Inr c'" and "well_formed c"
  shows "\<And>key. key \<in> set ks \<or> settled c key \<Longrightarrow> settled c' key"
  using assms
proof (induction ks arbitrary: c)
  case Nil
  then show ?case by simp
next
  case (Cons k1 ks)
  from Cons.prems(2) obtain c1 where s: "merge_key k1 c = Inr c1"
      and rest: "for_each merge_key ks c1 = Inr c'"
    by (auto split: sum.splits)
  have wf1: "well_formed c1" using well_formed_merge_key[OF Cons.prems(3) s] .
  have "key \<in> set ks \<or> settled c1 key"
    using Cons.prems(1) settled_after_own[OF Cons.prems(3) s]
      settled_after_other[OF Cons.prems(3) s] by auto
  then show ?case using Cons.IH[OF _ rest wf1] by blast
qed

lemma merge_keys_map_unchanged:
  assumes "for_each merge_key ks c = Inr c'" and "well_formed c"
    and "\<And>key. key \<in> set ks \<Longrightarrow> settled c key"
  shows "sln_configurations_map c' = sln_configurations_map c"
  using assms
proof (induction ks arbitrary: c)
  case Nil
  then show ?case by simp
next
  case (Cons k1 ks)
  from Cons.prems(1) obtain c1 where s: "merge_key k1 c = Inr c1"
      and rest: "for_each merge_key ks c1 = Inr c'"
    by (auto split: sum.splits)
  have wf1: "well_formed c1" using well_formed_merge_key[OF Cons.prems(2) s] .
  have m1: "sln_configurations_map c1 = sln_configurations_map c"
    using settled_map_unchanged[OF Cons.prems(2) s] Cons.prems(3) by simp
  have "\<And>key. key \<in> set ks \<Longrightarrow> settled c1 key"
    using settled_after_other[OF Cons.prems(2) s] Cons.prems(3) by simp
  then show ?case using Cons.IH[OF rest wf1] m1 by simp
qed

lemma residuals_unshared:
  assumes "xs \<noteq> []"
  shows "(\<Inter>e \<in> set (map (\<lambda>e. (fst e, filter (\<lambda>x. x \<notin> (\<Inter>e \<in> set xs. set (snd e))) (snd e))) xs).
            set (snd e)) = {}"
proof -
  from assms obtain e0 where e0: "e0 \<in> set xs" by (cases xs) auto
  show ?thesis
  proof (rule ccontr)
    assume "\<not> ?thesis"
    then obtain v where v: "\<forall>e \<in> set xs. v \<in> set (snd e) \<and> v \<notin> (\<Inter>e \<in> set xs. set (snd e))"
      by auto
    then have "v \<in> (\<Inter>e \<in> set xs. set (snd e))" by blast
    then show False using v e0 by blast
  qed
qed

lemma for_each_fixed:
  "(\<And>x. x \<in> set xs \<Longrightarrow> body x s = Inr s) \<Longrightarrow> for_each body xs s = Inr s"
  by (induction xs) simp_all

text \<open>
  The hook has nothing to add when the store already holds the wildcard key of every
  entry of the configuration map; the intersection pass then leaves the context as it is.
\<close>

definition all_seeded :: "conv_context \<Rightarrow> bool" where
  "all_seeded c \<longleftrightarrow>
     (\<forall>sln \<in> set (map fst (sln_configurations_map c)). map_of (settings c) (None, snd sln) \<noteq> None)"

lemma intersection_pass_seeded:
  assumes "intersection_pass key c = Inr (c1, L, S)" and "all_seeded c"
  shows "c1 = c"
proof -
  have "fst (c1, L, S) = c"
  proof (rule for_each_invariant[where I = "\<lambda>pre st. fst st = c" and body = "intersection_step key"
        and s = "(c, [], [])" and xs = "map fst (sln_configurations_map c)"])
    show "for_each (intersection_step key) (map fst (sln_configurations_map c)) (c, [], [])
            = Inr (c1, L, S)"
      using assms(1) by (simp add: intersection_pass_def)
    show "fst (c, [], []) = c" by simp
  next
    fix pre x suf and t t' :: "conv_context \<times> items_to_merge \<times> items_sets"
    assume xs: "map fst (sln_configurations_map c) = pre @ x # suf"
      and i: "fst t = c" and b: "intersection_step key x t = Inr t'"
    obtain L0 S0 where t: "t = (c, L0, S0)" using i by (cases t) auto
    obtain c' L' S' where t': "t' = (c', L', S')" by (cases t')
    have "c' = step_ctx x c" using intersection_step_result(1)[OF b[unfolded t t']] .
    moreover have "x \<in> set (map fst (sln_configurations_map c))" unfolding xs by simp
    then have "map_of (settings c) (None, snd x) \<noteq> None" using assms(2) unfolding all_seeded_def by blast
    ultimately show "fst t' = c" by (simp add: t' step_ctx_def)
  qed
  then show ?thesis by simp
qed

text \<open>
  A key is hoisted when its pass has nothing left to move: the map is settled for it,
  every contributing configuration holds a list of its own under the key, and the lists of
  an architecture share no value.
\<close>

definition hoisted :: "conv_context \<Rightarrow> string \<Rightarrow> bool" where
  "hoisted c key \<longleftrightarrow>
     settled c key
     \<and> (\<forall>sln \<in> contributors c key. \<exists>l. lookup (settings c) sln key = Some (PList l))
     \<and> (\<forall>a. contributions c key a \<noteq> [] \<longrightarrow> common_values c key a = {})"

lemma rewrite_step_fixed:
  assumes wf: "well_formed c" and h: "hoisted c key" and sln: "sln \<in> contributors c key"
    and arch: "snd sln \<noteq> None"
  shows "rewrite_step key (sln, residual_of c key sln) c = Inr c"
proof -
  from h sln obtain l where l: "lookup (settings c) sln key = Some (PList l)"
    unfolding hoisted_def by blast
  then obtain r where r: "map_of (settings c) sln = Some r" "map_of r key = Some (PList l)"
    by (auto simp: lookup_def split: option.splits)
  have m: "map_of (sln_configurations_map c) sln = Some sln"
    using h sln unfolding hoisted_def settled_def by blast
  have f: "fst sln \<noteq> None" using contributors_concrete[OF wf sln] .
  have con: "contribution c key sln = Some l" using contribution_lookup[OF m f, of key] l by simp
  obtain a where a: "snd sln = Some a" using arch by auto
  have "sln \<in> set (map fst (sln_configurations_map c))" using sln by (simp add: contributors_def)
  then have "(sln, l) \<in> set (contributions c key a)" using a con by (simp add: contributions_mem)
  then have "contributions c key a \<noteq> []" by auto
  then have cv: "common_values c key a = {}" using h unfolding hoisted_def by blast
  have res: "residual_of c key sln = l" by (simp add: residual_of_def a cv con)
  have b: "base_record c sln = Some r" by (simp add: base_record_def r)
  have u1: "AList.update key (PList l) r = r" using r(2) by (rule update_triv)
  have u2: "AList.update sln r (settings c) = settings c" using r(1) by (rule update_triv)
  have u3: "AList.update sln sln (sln_configurations_map c) = sln_configurations_map c"
    using m by (rule update_triv)
  show ?thesis by (simp add: rewrite_step_def update_settings_at_context_eq b res u1 u2 u3)
qed

lemma merge_key_runs:
  assumes dk: "distinct (map fst (sln_configurations_map c))" and run: "merge_key key c = Inr c'"
  obtains c1 c2 L S W AL where
    "intersection_pass key c = Inr (c1, L, S)"
    "for_each (rewrite_step key) W c1 = Inr c2"
    "set W = (\<lambda>sln. (sln, residual_of c key sln)) ` contributors c key"
    "for_each (commit_step key) (map (\<lambda>a. (a, common_list c key a)) AL) c2 = Inr c'"
    "distinct AL"
    "set AL = archs (map fst (sln_configurations_map c))"
    "\<forall>sln \<in> contributors c key. snd sln \<noteq> None"
proof -
  let ?slns = "map fst (sln_configurations_map c)"
  from run obtain c1 L S where ip: "intersection_pass key c = Inr (c1, L, S)"
    by (auto simp: merge_key_def split: sum.splits)
  then obtain c2 where rc: "remove_common_settings_from_context c1 L S key = Inr c2"
    using run by (auto simp: merge_key_def split: sum.splits)
  then obtain M where gm: "get_common_ordered_settings (get_order_of_common_settings L) S = Inr M"
      and cm: "for_each (commit_step key) M c2 = Inr c'"
    using run ip by (auto simp: merge_key_def split: sum.splits)
  have inv: "pass_inv c key ?slns (c1, L, S)" using intersection_pass_inv[OF ip dk] .
  note pl = pass_lists[OF inv]
  from inv have p3: "\<forall>sln \<in> set ?slns. contribution c key sln = None \<or> snd sln \<noteq> None"
    unfolding pass_inv_def by auto
  have flat_ok: "\<forall>g \<in> set L. snd g \<noteq> [] \<longrightarrow> map_of S (fst g) \<noteq> None"
  proof (intro ballI impI)
    fix g assume g: "g \<in> set L" "snd g \<noteq> []"
    then have "g \<in> set (map (\<lambda>a. (a, contributions c key a)) (map fst L))" using pl(2) by simp
    then have "snd g = contributions c key (fst g)" by auto
    then show "map_of S (fst g) \<noteq> None" using pl(4)[of "fst g"] g(2) by simp
  qed
  have rw: "for_each (rewrite_step key) (residuals S L) c1 = Inr c2"
    using rc remove_common_flat[OF flat_ok] by simp
  have setW: "set (residuals S L) = (\<lambda>sln. (sln, residual_of c key sln)) ` contributors c key"
    using residuals_set[OF pl(2) pl(3) pl(4) p3] by simp
  have Meq: "M = map (\<lambda>a. (a, common_list c key a)) (map fst L)"
    using merged_settings_eq[OF pl(2) pl(1) pl(4) gm] .
  have ar: "\<forall>sln \<in> contributors c key. snd sln \<noteq> None"
    using p3 by (auto simp: contributors_def)
  show ?thesis using that[OF ip rw setW cm[unfolded Meq] pl(1) pl(3) ar] .
qed

lemma commit_step_emptied:
  assumes "for_each (commit_step key) (map (\<lambda>a. (a, [])) AL) c = Inr c'"
    and "\<forall>a \<in> set AL. map_of (sln_configurations_map c) (wild a) = Some (wild a)"
    and "distinct AL"
  shows "c' = c\<lparr>settings := settings c'\<rparr>
       \<and> map fst (settings c') = map fst (settings c)
       \<and> (\<forall>k r. map_of (settings c) k = Some r \<longrightarrow>
             map_of (settings c') k
               = Some (if k \<in> wild ` set AL then AList.update key (PList []) r else r))"
  using assms
proof (induction AL arbitrary: c)
  case Nil
  then show ?case by simp
next
  case (Cons a AL)
  from Cons.prems(1) obtain c1 where s: "commit_step key (a, []) c = Inr c1"
      and rest: "for_each (commit_step key) (map (\<lambda>a. (a, [])) AL) c1 = Inr c'"
    by (auto split: sum.splits)
  from s obtain r0 where r0: "map_of (settings c) (wild a) = Some r0"
    by (auto simp: commit_step_eq split: option.splits)
  have u: "AList.update (wild a) (wild a) (sln_configurations_map c) = sln_configurations_map c"
    using Cons.prems(2) by (simp add: update_triv)
  have c1: "c1 = c\<lparr>settings := AList.update (wild a) (AList.update key (PList []) r0) (settings c)\<rparr>"
    using s r0 u by (simp add: commit_step_eq)
  have m1: "sln_configurations_map c1 = sln_configurations_map c" by (simp add: c1)
  have pres: "wild a \<in> set (map fst (settings c))"
    using r0 by (metis map_of_eq_None_iff option.distinct(1) set_map)
  have k1: "map fst (settings c1) = map fst (settings c)"
    using pres by (simp add: c1 update_keys)
  have IH: "c' = c1\<lparr>settings := settings c'\<rparr>
       \<and> map fst (settings c') = map fst (settings c1)
       \<and> (\<forall>k r. map_of (settings c1) k = Some r \<longrightarrow>
             map_of (settings c') k
               = Some (if k \<in> wild ` set AL then AList.update key (PList []) r else r))"
    using Cons.IH[OF rest] Cons.prems(2,3) m1 by simp
  have IHr: "\<And>k r. map_of (settings c1) k = Some r \<Longrightarrow>
             map_of (settings c') k
               = Some (if k \<in> wild ` set AL then AList.update key (PList []) r else r)"
    using IH by blast
  have rec: "map_of (settings c') k
               = Some (if k \<in> wild ` set (a # AL) then AList.update key (PList []) r else r)"
    if kr: "map_of (settings c) k = Some r" for k r
  proof (cases "k = wild a")
    case True
    then have "r = r0" using kr r0 by simp
    moreover have "map_of (settings c1) k = Some (AList.update key (PList []) r0)"
      using True by (simp add: c1 update_conv')
    moreover have "k \<notin> wild ` set AL" using True Cons.prems(3) by auto
    ultimately show ?thesis using IHr[of k "AList.update key (PList []) r0"] True by simp
  next
    case False
    then have "map_of (settings c1) k = Some r" using kr by (simp add: c1 update_conv')
    moreover have "k \<in> wild ` set (a # AL) \<longleftrightarrow> k \<in> wild ` set AL" using False by auto
    ultimately show ?thesis using IHr[of k r] by simp
  qed
  have "c' = c1\<lparr>settings := settings c'\<rparr>" using IH by blast
  then have e1: "c' = c\<lparr>settings := settings c'\<rparr>" by (simp add: c1)
  have e2: "map fst (settings c') = map fst (settings c)" using IH k1 by simp
  show ?case using e1 e2 rec by blast
qed

lemma merge_key_hoisted:
  assumes wf: "well_formed c" and sd: "all_seeded c" and h: "hoisted c key"
    and run: "merge_key key c = Inr c'"
  shows "c' = c\<lparr>settings := settings c'\<rparr>"
    and "map fst (settings c') = map fst (settings c)"
    and "\<And>k r. map_of (settings c) k = Some r \<Longrightarrow>
           map_of (settings c') k
             = Some (if k \<in> wild ` archs (map fst (sln_configurations_map c))
                     then AList.update key (PList []) r else r)"
proof -
  have dk: "distinct (map fst (sln_configurations_map c))" using wf by (simp add: well_formed_def)
  obtain c1 c2 L S W AL where
    ip: "intersection_pass key c = Inr (c1, L, S)"
    and rw: "for_each (rewrite_step key) W c1 = Inr c2"
    and setW: "set W = (\<lambda>sln. (sln, residual_of c key sln)) ` contributors c key"
    and cm: "for_each (commit_step key) (map (\<lambda>a. (a, common_list c key a)) AL) c2 = Inr c'"
    and dAL: "distinct AL"
    and sAL: "set AL = archs (map fst (sln_configurations_map c))"
    and ar: "\<forall>sln \<in> contributors c key. snd sln \<noteq> None"
    by (rule merge_key_runs[OF dk run])
  have c1: "c1 = c" using intersection_pass_seeded[OF ip sd] .
  have "for_each (rewrite_step key) W c = Inr c"
  proof (rule for_each_fixed)
    fix e assume "e \<in> set W"
    then obtain sln where "sln \<in> contributors c key" "e = (sln, residual_of c key sln)"
      unfolding setW by blast
    then show "rewrite_step key e c = Inr c" using rewrite_step_fixed[OF wf h] ar by blast
  qed
  then have c2: "c2 = c" using rw c1 by simp
  have cl: "common_list c key a = []" for a
  proof (cases "contributions c key a = []")
    case True
    then show ?thesis by (rule common_list_none)
  next
    case False
    then have "common_values c key a = {}" using h unfolding hoisted_def by blast
    then have "set (common_list c key a) = {}" using common_list_set[OF False] by simp
    then show ?thesis by simp
  qed
  have cm': "for_each (commit_step key) (map (\<lambda>a. (a, [])) AL) c = Inr c'"
    using cm c2 by (simp add: cl)
  have st: "\<forall>a \<in> set AL. map_of (sln_configurations_map c) (wild a) = Some (wild a)"
    using h unfolding hoisted_def settled_def sAL by blast
  note E = commit_step_emptied[OF cm' st dAL, unfolded sAL]
  show "c' = c\<lparr>settings := settings c'\<rparr>" using E by blast
  show "map fst (settings c') = map fst (settings c)" using E by blast
  show "\<And>k r. map_of (settings c) k = Some r \<Longrightarrow>
           map_of (settings c') k
             = Some (if k \<in> wild ` archs (map fst (sln_configurations_map c))
                     then AList.update key (PList []) r else r)"
    using E by blast
qed

lemma all_seeded_after:
  assumes wf: "well_formed c" and run: "merge_key key c = Inr c'"
  shows "all_seeded c'"
proof -
  let ?slns = "map fst (sln_configurations_map c)"
  let ?A = "archs ?slns"
  let ?Ks = "contributors c key"
  note S = merge_key_summary[OF wf run]
  obtain c1 c2 W M where
    p1: "\<forall>sln \<in> set ?slns. map_of (settings c1) (None, snd sln) \<noteq> None"
    and setW: "set W = (\<lambda>sln. (sln, residual_of c key sln)) ` ?Ks"
    and ri: "rewrite_inv c1 key W c2"
    and setM: "set M = (\<lambda>a. (a, common_list c key a)) ` ?A"
    and ci: "commit_inv c2 key M c'"
    by (rule merge_key_phases[OF wf run])
  have fW: "fst ` set W = ?Ks" unfolding setW by (simp add: image_image)
  have fM: "fst ` set M = ?A" unfolding setM by (simp add: image_image)
  from ri have r2: "\<And>k. k \<notin> ?Ks \<Longrightarrow> map_of (settings c2) k = map_of (settings c1) k"
    unfolding rewrite_inv_def fW by blast
  from ci have q4: "\<And>k. k \<notin> wild ` ?A \<Longrightarrow> map_of (settings c') k = map_of (settings c2) k"
    unfolding commit_inv_def fM by blast
  from S(2) obtain new where new: "map fst (sln_configurations_map c') = ?slns @ new"
      "set new \<subseteq> wild ` ?A" by blast
  have wa: "map_of (settings c') (wild a) \<noteq> None" if "a \<in> ?A" for a
    using S(5)[OF that] by auto
  have "map_of (settings c') (None, snd sln) \<noteq> None"
    if sln: "sln \<in> set (map fst (sln_configurations_map c'))" for sln
  proof (cases "snd sln")
    case (Some a)
    have "a \<in> ?A"
    proof (cases "sln \<in> set ?slns")
      case True
      then show ?thesis using Some by (force simp: archs_def)
    next
      case False
      then have "sln \<in> set new" using sln new(1) by simp
      then have "sln \<in> wild ` ?A" using new(2) by blast
      then show ?thesis using Some by auto
    qed
    then show ?thesis using wa Some by simp
  next
    case None
    have "sln \<notin> set new" using new(2) None by auto
    then have "sln \<in> set ?slns" using sln new(1) by simp
    then have a: "map_of (settings c1) (None, None) \<noteq> None" using p1 None by force
    have "(None, None) \<notin> ?Ks" using contributors_concrete[OF wf, of "(None, None)" key] by auto
    then have b: "map_of (settings c2) (None, None) = map_of (settings c1) (None, None)"
      by (rule r2)
    have "(None, None) \<notin> wild ` ?A" by auto
    then have "map_of (settings c') (None, None) = map_of (settings c2) (None, None)"
      by (rule q4)
    then show ?thesis using a b None by simp
  qed
  then show ?thesis unfolding all_seeded_def by blast
qed

lemma hoisted_after_own:
  assumes wf: "well_formed c" and run: "merge_key key c = Inr c'"
  shows "hoisted c' key"
proof -
  note S = merge_key_summary[OF wf run]
  have h2: "settled c' key" using settled_after_own[OF wf run] .
  have h3: "\<exists>l. lookup (settings c') sln key = Some (PList l)" if "sln \<in> contributors c' key" for sln
  proof -
    from that have "sln \<in> contributors c key" using contributors_after[OF wf run] by simp
    from S(4)[OF this] obtain r' r where "map_of (settings c') sln = Some r'"
        "map_of r' = (map_of r)(key \<mapsto> PList (residual_of c key sln))" by blast
    then show ?thesis by (simp add: lookup_def)
  qed
  have h4: "common_values c' key a = {}" if ne: "contributions c' key a \<noteq> []" for a
  proof -
    have eq: "contributions c' key a
                = map (\<lambda>e. (fst e, residual_of c key (fst e))) (contributions c key a)"
      using contributions_after[OF wf run, of key a] by simp
    have "map (\<lambda>e. (fst e, residual_of c key (fst e))) (contributions c key a)
            = map (\<lambda>e. (fst e, filter (\<lambda>x. x \<notin> (\<Inter>e \<in> set (contributions c key a). set (snd e))) (snd e)))
                (contributions c key a)"
    proof (intro map_cong refl)
      fix e assume "e \<in> set (contributions c key a)"
      then have "(fst e, snd e) \<in> set (contributions c key a)" by simp
      from contributions_arch(3)[OF this]
      show "(fst e, residual_of c key (fst e))
              = (fst e, filter (\<lambda>x. x \<notin> (\<Inter>e \<in> set (contributions c key a). set (snd e))) (snd e))"
        by (simp add: common_values_def)
    qed
    moreover have "contributions c key a \<noteq> []" using ne eq by auto
    ultimately show ?thesis
      unfolding common_values_def eq using residuals_unshared[of "contributions c key a"] by simp
  qed
  show ?thesis unfolding hoisted_def using h2 h3 h4 by blast
qed

lemma hoisted_after_other:
  assumes wf: "well_formed c" and run: "merge_key k1 c = Inr c'" and ne: "key \<noteq> k1"
    and h: "hoisted c key"
  shows "hoisted c' key"
proof -
  have h2: "settled c' key" using settled_after_other[OF wf run] h by (simp add: hoisted_def)
  have h3: "\<exists>l. lookup (settings c') sln key = Some (PList l)" if "sln \<in> contributors c' key" for sln
  proof -
    from that have "sln \<in> contributors c key" using contributors_after[OF wf run] by simp
    then obtain l where "lookup (settings c) sln key = Some (PList l)"
      using h unfolding hoisted_def by blast
    then obtain r where r: "map_of (settings c) sln = Some r" "map_of r key = Some (PList l)"
      by (auto simp: lookup_def split: option.splits)
    from frame_merge_key[OF wf run r(1)] obtain r' where
      "map_of (settings c') sln = Some r'" "\<forall>k2. k2 \<noteq> k1 \<longrightarrow> map_of r' k2 = map_of r k2" by blast
    then show ?thesis using r(2) ne by (simp add: lookup_def)
  qed
  have eq: "contributions c' key a = contributions c key a" for a
    using contributions_after[OF wf run, of key a] ne by simp
  have h4: "common_values c' key a = {}" if "contributions c' key a \<noteq> []" for a
    using that h common_values_cong[OF eq, of a] unfolding hoisted_def eq by simp
  show ?thesis unfolding hoisted_def using h2 h3 h4 by blast
qed

lemma merge_keys_hoisted:
  assumes "for_each merge_key ks c = Inr c'" and "well_formed c"
  shows "\<And>key. key \<in> set ks \<or> hoisted c key \<Longrightarrow> hoisted c' key"
  using assms
proof (induction ks arbitrary: c)
  case Nil
  then show ?case by simp
next
  case (Cons k1 ks)
  from Cons.prems(2) obtain c1 where s: "merge_key k1 c = Inr c1"
      and rest: "for_each merge_key ks c1 = Inr c'"
    by (auto split: sum.splits)
  have wf1: "well_formed c1" using well_formed_merge_key[OF Cons.prems(3) s] .
  have "key \<in> set ks \<or> hoisted c1 key"
    using Cons.prems(1) hoisted_after_own[OF Cons.prems(3) s]
      hoisted_after_other[OF Cons.prems(3) s, of key] by auto
  then show ?case using Cons.IH[OF _ rest wf1] by blast
qed

lemma merge_keys_seeded:
  assumes "for_each merge_key ks c = Inr c'" and "well_formed c" and "ks \<noteq> [] \<or> all_seeded c"
  shows "all_seeded c'"
  using assms
proof (induction ks arbitrary: c)
  case Nil
  then show ?case by simp
next
  case (Cons k1 ks)
  from Cons.prems(1) obtain c1 where s: "merge_key k1 c = Inr c1"
      and rest: "for_each merge_key ks c1 = Inr c'"
    by (auto split: sum.splits)
  have wf1: "well_formed c1" using well_formed_merge_key[OF Cons.prems(2) s] .
  have "all_seeded c1" using all_seeded_after[OF Cons.prems(2) s] .
  then show ?case using Cons.IH[OF rest wf1] by blast
qed

text \<open>
  A record with the empty list stored under each of the keys \<open>ks\<close>, and a store in
  which this is done to the records under the wildcard keys of the architectures \<open>A\<close>.
\<close>

definition emptied :: "string list \<Rightarrow> settings_record \<Rightarrow> settings_record" where
  "emptied ks r = fold (\<lambda>key. AList.update key (PList [])) ks r"

definition emptied_store ::
  "string set \<Rightarrow> string list \<Rightarrow> (config_key \<times> settings_record) list
     \<Rightarrow> (config_key \<times> settings_record) list" where
  "emptied_store A ks st = map (\<lambda>e. if fst e \<in> wild ` A then (fst e, emptied ks (snd e)) else e) st"

lemma emptied_store_keys [simp]: "map fst (emptied_store A ks st) = map fst st"
  by (simp add: emptied_store_def comp_def if_distrib[of fst] cong: if_cong)

lemma map_of_emptied_store:
  "map_of (emptied_store A ks st) k
     = map_option (\<lambda>r. if k \<in> wild ` A then emptied ks r else r) (map_of st k)"
proof (induction st)
  case Nil
  then show ?case by (simp add: emptied_store_def)
next
  case (Cons e st)
  then show ?case by (cases e) (simp add: emptied_store_def)
qed

lemma merge_keys_emptied:
  assumes "for_each merge_key ks d = Inr d'" and "well_formed d" and "all_seeded d"
    and "\<forall>key \<in> set ks. hoisted d key"
  shows "d' = d\<lparr>settings := settings d'\<rparr>
       \<and> map fst (settings d') = map fst (settings d)
       \<and> (\<forall>k r. map_of (settings d) k = Some r \<longrightarrow>
             map_of (settings d') k
               = Some (if k \<in> wild ` archs (map fst (sln_configurations_map d))
                       then emptied ks r else r))"
  using assms
proof (induction ks arbitrary: d)
  case Nil
  then show ?case by (simp add: emptied_def)
next
  case (Cons k1 ks)
  let ?A = "archs (map fst (sln_configurations_map d))"
  from Cons.prems(1) obtain d1 where s: "merge_key k1 d = Inr d1"
      and rest: "for_each merge_key ks d1 = Inr d'"
    by (auto split: sum.splits)
  have h1: "hoisted d k1" using Cons.prems(4) by simp
  note H = merge_key_hoisted[OF Cons.prems(2,3) h1 s]
  have m1: "sln_configurations_map d1 = sln_configurations_map d"
    by (subst H(1)) simp
  have wf1: "well_formed d1" using well_formed_merge_key[OF Cons.prems(2) s] .
  have sd1: "all_seeded d1" using all_seeded_after[OF Cons.prems(2) s] .
  have hs: "\<forall>key \<in> set ks. hoisted d1 key"
  proof
    fix key assume k: "key \<in> set ks"
    then have "hoisted d key" using Cons.prems(4) by simp
    then show "hoisted d1 key"
      using hoisted_after_own[OF Cons.prems(2) s] hoisted_after_other[OF Cons.prems(2) s, of key]
      by (cases "key = k1") auto
  qed
  note IH = Cons.IH[OF rest wf1 sd1 hs, unfolded m1]
  have IHr: "\<And>k r. map_of (settings d1) k = Some r \<Longrightarrow>
             map_of (settings d') k = Some (if k \<in> wild ` ?A then emptied ks r else r)"
    using IH by blast
  have e1: "d' = d\<lparr>settings := settings d'\<rparr>"
  proof -
    have "d' = d1\<lparr>settings := settings d'\<rparr>" using IH by blast
    then show ?thesis by (subst (asm) H(1)) simp
  qed
  have e2: "map fst (settings d') = map fst (settings d)" using IH H(2) by simp
  have e3: "map_of (settings d') k = Some (if k \<in> wild ` ?A then emptied (k1 # ks) r else r)"
    if kr: "map_of (settings d) k = Some r" for k r
    using IHr[OF H(3)[OF kr]] by (simp add: emptied_def)
  show ?case using e1 e2 e3 by blast
qed

text \<open>
  C3, as amended: a second run of \<open>merge_data_settings\<close> on the result of a first run
  (from a well-formed configuration map) changes the common lists and nothing else. Every field of the context but the store is unchanged, the
  configuration map included; the store keeps its keys, in their order; every record is
  unchanged, except that in the record under the wildcard key of every architecture of the
  map the list of every mergeable key becomes empty. For a store with distinct keys this
  determines the store after the second run as a list.
\<close>

theorem merge_data_settings_second_run:
  assumes run1: "merge_data_settings (ContextTree c fcs) = Inr t1"
    and run2: "merge_data_settings t1 = Inr t2"
    and wf: "well_formed c"
  shows "ctx t2 = (ctx t1)\<lparr>settings := settings (ctx t2)\<rparr>
       \<and> map fst (settings (ctx t2)) = map fst (settings (ctx t1))
       \<and> map_of (settings (ctx t2))
           = map_of (emptied_store (archs (map fst (sln_configurations_map c)))
                       (lists_of_settings_to_merge (utils c)) (settings (ctx t1)))
       \<and> (distinct (map fst (settings (ctx t1))) \<longrightarrow>
            settings (ctx t2)
              = emptied_store (archs (map fst (sln_configurations_map c)))
                  (lists_of_settings_to_merge (utils c)) (settings (ctx t1)))"
proof -
  let ?ks = "lists_of_settings_to_merge (utils c)"
  let ?A = "archs (map fst (sln_configurations_map c))"
  have mk1: "for_each merge_key ?ks c = Inr (ctx t1)"
    using merge_data_settings_root[OF run1] by (simp add: merge_keys_def)
  note I1 = merge_keys_invariants[OF mk1 wf]
  obtain c1 f1 where t1: "t1 = ContextTree c1 f1" by (cases t1)
  have mk2: "for_each merge_key ?ks (ctx t1) = Inr (ctx t2)"
    using merge_data_settings_root[OF run2[unfolded t1]] I1(2) by (simp add: merge_keys_def t1)
  have E: "ctx t2 = (ctx t1)\<lparr>settings := settings (ctx t2)\<rparr>
       \<and> map fst (settings (ctx t2)) = map fst (settings (ctx t1))
       \<and> (\<forall>k r. map_of (settings (ctx t1)) k = Some r \<longrightarrow>
             map_of (settings (ctx t2)) k
               = Some (if k \<in> wild ` ?A then emptied ?ks r else r))"
  proof (cases "?ks = []")
    case True
    then have "ctx t2 = ctx t1" using mk2 by simp
    then show ?thesis using True by (simp add: emptied_def)
  next
    case False
    have sd: "all_seeded (ctx t1)" using merge_keys_seeded[OF mk1 wf] False by blast
    have hs: "\<forall>key \<in> set ?ks. hoisted (ctx t1) key" using merge_keys_hoisted[OF mk1 wf] by blast
    show ?thesis using merge_keys_emptied[OF mk2 I1(1) sd hs] unfolding I1(3) .
  qed
  then have keys: "map fst (settings (ctx t2)) = map fst (settings (ctx t1))" by blast
  from E have Er: "\<And>k r. map_of (settings (ctx t1)) k = Some r \<Longrightarrow>
             map_of (settings (ctx t2)) k = Some (if k \<in> wild ` ?A then emptied ?ks r else r)"
    by blast
  have mo: "map_of (settings (ctx t2)) = map_of (emptied_store ?A ?ks (settings (ctx t1)))"
  proof
    fix k
    show "map_of (settings (ctx t2)) k = map_of (emptied_store ?A ?ks (settings (ctx t1))) k"
    proof (cases "map_of (settings (ctx t1)) k")
      case None
      then have "k \<notin> fst ` set (settings (ctx t1))" by (simp add: map_of_eq_None_iff)
      then have "k \<notin> fst ` set (settings (ctx t2))" using keys by (metis set_map)
      then have "map_of (settings (ctx t2)) k = None" by (simp add: map_of_eq_None_iff)
      then show ?thesis using None by (simp add: map_of_emptied_store)
    next
      case (Some r)
      then show ?thesis using Er[OF Some] by (simp add: map_of_emptied_store)
    qed
  qed
  have "settings (ctx t2) = emptied_store ?A ?ks (settings (ctx t1))"
    if d: "distinct (map fst (settings (ctx t1)))"
  proof (rule alist_eqI)
    show "distinct (map fst (settings (ctx t2)))" using d keys by simp
    show "map fst (settings (ctx t2)) = map fst (emptied_store ?A ?ks (settings (ctx t1)))"
      using keys by simp
    show "map_of (settings (ctx t2)) = map_of (emptied_store ?A ?ks (settings (ctx t1)))"
      by (rule mo)
  qed
  then show ?thesis using E mo by blast
qed

lemma scenario_run_again:
  "merge_data_settings (ContextTree scenario_merged None)
     = Inr (ContextTree
              (scenario_merged
                 \<lparr>settings := [((Some ''Debug'', Some ''x64''), [(''defines'', PList [''Z''])]),
                     ((Some ''Release'', Some ''x64''), [(''defines'', PList [''W''])]),
                     ((None, Some ''x64''), [(''defines'', PList [])])]\<rparr>) None)"
  by (simp add: scenario_merge_again)

text \<open>
  C3 fails as stated: the second run over the merged scenario finds no value shared by
  the residual lists \<open>[Z]\<close> and \<open>[W]\<close> and assigns the empty common list over the
  hoisted list \<open>[X, Y]\<close>; the store after the second run differs from the store after
  the first.
\<close>

theorem merge_data_settings_not_idempotent:
  "merge_data_settings (ContextTree scenario_context None) = Inr (ContextTree scenario_merged None)
   \<and> merge_data_settings (ContextTree scenario_merged None)
     = Inr (ContextTree
              (scenario_merged
                 \<lparr>settings := [((Some ''Debug'', Some ''x64''), [(''defines'', PList [''Z''])]),
                     ((Some ''Release'', Some ''x64''), [(''defines'', PList [''W''])]),
                     ((None, Some ''x64''), [(''defines'', PList [])])]\<rparr>) None)
   \<and> settings scenario_merged
       \<noteq> [((Some ''Debug'', Some ''x64''), [(''defines'', PList [''Z''])]),
          ((Some ''Release'', Some ''x64''), [(''defines'', PList [''W''])]),
          ((None, Some ''x64''), [(''defines'', PList [])])]"
proof -
  have "settings scenario_merged
       \<noteq> [((Some ''Debug'', Some ''x64''), [(''defines'', PList [''Z''])]),
          ((Some ''Release'', Some ''x64''), [(''defines'', PList [''W''])]),
          ((None, Some ''x64''), [(''defines'', PList [])])]"
    by (simp add: scenario_merged_def)
  then show ?thesis using scenario_run scenario_run_again by blast
qed

theorem merge_data_settings_second_run_witness:
  "merge_data_settings (ContextTree scenario_context None) = Inr (ContextTree scenario_merged None)
   \<and> well_formed scenario_context
   \<and> distinct (map fst (settings scenario_merged))
   \<and> (\<exists>t2. merge_data_settings (ContextTree scenario_merged None) = Inr t2
        \<and> ctx t2 = scenario_merged\<lparr>settings := settings (ctx t2)\<rparr>
        \<and> settings (ctx t2)
            = emptied_store {''x64''} [''defines''] (settings scenario_merged)
        \<and> settings (ctx t2)
            = [((Some ''Debug'', Some ''x64''), [(''defines'', PList [''Z''])]),
               ((Some ''Release'', Some ''x64''), [(''defines'', PList [''W''])]),
               ((None, Some ''x64''), [(''defines'', PList [])])])"
proof -
  have ds: "distinct (map fst (settings scenario_merged))"
    by (simp add: scenario_merged_def)
  have A: "archs (map fst (sln_configurations_map scenario_context)) = {''x64''}"
    by (auto simp: archs_def scenario_context_def)
  have ks: "lists_of_settings_to_merge (utils scenario_context) = [''defines'']"
    by (simp add: scenario_context_def scenario_utils_def)
  note t = merge_data_settings_second_run[OF scenario_run scenario_run_again scenario_well_formed]
  have a: "ctx (ContextTree
              (scenario_merged
                 \<lparr>settings := [((Some ''Debug'', Some ''x64''), [(''defines'', PList [''Z''])]),
                     ((Some ''Release'', Some ''x64''), [(''defines'', PList [''W''])]),
                     ((None, Some ''x64''), [(''defines'', PList [])])]\<rparr>) None)
          = scenario_merged\<lparr>settings := settings (ctx (ContextTree
              (scenario_merged
                 \<lparr>settings := [((Some ''Debug'', Some ''x64''), [(''defines'', PList [''Z''])]),
                     ((Some ''Release'', Some ''x64''), [(''defines'', PList [''W''])]),
                     ((None, Some ''x64''), [(''defines'', PList [])])]\<rparr>) None))\<rparr>"
    by simp
  have b: "settings (ctx (ContextTree
              (scenario_merged
                 \<lparr>settings := [((Some ''Debug'', Some ''x64''), [(''defines'', PList [''Z''])]),
                     ((Some ''Release'', Some ''x64''), [(''defines'', PList [''W''])]),
                     ((None, Some ''x64''), [(''defines'', PList [])])]\<rparr>) None))
          = emptied_store {''x64''} [''defines''] (settings scenario_merged)"
    using t ds unfolding A ks by simp
  show ?thesis using scenario_run scenario_run_again scenario_well_formed ds a b by simp
qed

subsection \<open>Independence of the iteration order of the plain dictionaries\<close>

text \<open>
  The dictionaries \<open>lists_of_items_to_merge\<close>, \<open>merged_order_lists\<close> and
  \<open>common_ordered_lists\<close> are plain dictionaries (\<open>{}\<close>) keyed by
  architecture, while the per-architecture dictionaries are \<open>OrderedDict\<close>s. The
  model above iterates a plain dictionary in insertion order. \<open>in_order io d\<close> is
  the sequence of the entries of \<open>d\<close> when its keys are iterated in the order
  \<open>io\<close> gives them; an answer of \<open>io\<close> that is not an arrangement of the
  keys is ignored.
\<close>

definition in_order :: "(string list \<Rightarrow> string list) \<Rightarrow> (string \<times> 'v) list \<Rightarrow> (string \<times> 'v) list" where
  "in_order io d =
     (let ks = io (map fst d)
      in if distinct (map fst d) \<and> distinct ks \<and> set ks = set (map fst d)
         then map (\<lambda>k. (k, the (map_of d k))) ks
         else d)"

lemma entries_rebuild:
  "distinct (map fst zs) \<Longrightarrow> map (\<lambda>k. (k, the (map_of zs k))) (map fst zs) = zs"
proof (induction zs)
  case Nil
  then show ?case by simp
next
  case (Cons z zs)
  have nz: "fst z \<notin> set (map fst zs)" using Cons.prems by simp
  have "map (\<lambda>k. (k, the (map_of (z # zs) k))) (map fst zs)
          = map (\<lambda>k. (k, the (map_of zs k))) (map fst zs)"
  proof (intro map_cong refl)
    fix k assume "k \<in> set (map fst zs)"
    then have "k \<noteq> fst z" using nz by blast
    then show "(k, the (map_of (z # zs) k)) = (k, the (map_of zs k))"
      by (cases z) simp
  qed
  moreover have "map (\<lambda>k. (k, the (map_of zs k))) (map fst zs) = zs"
    using Cons.IH Cons.prems by simp
  moreover have "the (map_of (z # zs) (fst z)) = snd z" by (cases z) simp
  ultimately have "map (\<lambda>k. (k, the (map_of (z # zs) k))) (fst z # map fst zs) = (fst z, snd z) # zs"
    by (simp only: list.map)
  then show ?case by simp
qed

lemma in_order_id: "in_order (\<lambda>ks. ks) d = d"
proof (cases "distinct (map fst d)")
  case True
  then show ?thesis using entries_rebuild[OF True] by (simp add: in_order_def Let_def)
next
  case False
  then show ?thesis by (simp add: in_order_def Let_def)
qed

lemma in_order_keys: "distinct (map fst d) \<Longrightarrow> distinct (map fst (in_order io d))"
  by (simp add: in_order_def Let_def comp_def)

lemma in_order_set:
  assumes "distinct (map fst d)"
  shows "set (in_order io d) = set d"
proof (cases "distinct (io (map fst d)) \<and> set (io (map fst d)) = set (map fst d)")
  case False
  then show ?thesis by (auto simp: in_order_def Let_def)
next
  case True
  have a: "in_order io d = map (\<lambda>k. (k, the (map_of d k))) (io (map fst d))"
    using True assms by (simp add: in_order_def Let_def)
  have "set (in_order io d) = (\<lambda>k. (k, the (map_of d k))) ` set (io (map fst d))"
    unfolding a by (simp only: set_map)
  also have "\<dots> = (\<lambda>k. (k, the (map_of d k))) ` set (map fst d)" using True by simp
  also have "\<dots> = set (map (\<lambda>k. (k, the (map_of d k))) (map fst d))" by (simp only: set_map)
  also have "\<dots> = set d" by (simp only: entries_rebuild[OF assms])
  finally show ?thesis .
qed

text \<open>
  The body of the loop over the mergeable keys, with every loop over a plain dictionary
  (in \<open>__remove_common_settings_from_context\<close>, in
  \<open>__get_order_of_common_settings\<close>, in \<open>__get_common_ordered_settings\<close> and
  the last loop of the body) run in the iteration order \<open>io\<close>. With the insertion
  order it is \<open>merge_key\<close>.
\<close>

definition merge_key_ord ::
  "(string list \<Rightarrow> string list) \<Rightarrow> string \<Rightarrow> conv_context \<Rightarrow> error + conv_context" where
  "merge_key_ord io key c =
     (case intersection_pass key c of
        Inl e \<Rightarrow> Inl e
      | Inr (c1, lists_of_items_to_merge, set_of_items) \<Rightarrow>
         (case remove_common_settings_from_context c1 (in_order io lists_of_items_to_merge)
                 set_of_items key of
            Inl e \<Rightarrow> Inl e
          | Inr c2 \<Rightarrow>
             (case get_common_ordered_settings
                     (in_order io
                        (get_order_of_common_settings (in_order io lists_of_items_to_merge)))
                     set_of_items of
                Inl e \<Rightarrow> Inl e
              | Inr merged_settings \<Rightarrow>
                  for_each (commit_step key) (in_order io merged_settings) c2)))"

lemma merge_key_ord_id: "merge_key_ord (\<lambda>ks. ks) = merge_key"
  by (rule ext, rule ext) (unfold merge_key_ord_def merge_key_def in_order_id, rule refl)

lemma in_order_groups:
  assumes L: "L = map (\<lambda>a. (a, f a)) (map fst L)" and d: "distinct (map fst L)"
  shows "in_order io L = map (\<lambda>a. (a, f a)) (map fst (in_order io L))"
proof -
  have "map (\<lambda>g. (fst g, f (fst g))) (in_order io L) = in_order io L"
  proof (rule map_idI)
    fix g assume "g \<in> set (in_order io L)"
    then have "g \<in> set L" using in_order_set[OF d] by simp
    then have "g \<in> set (map (\<lambda>a. (a, f a)) (map fst L))" using L by simp
    then show "(fst g, f (fst g)) = g" by auto
  qed
  then show ?thesis by (simp add: comp_def)
qed

text \<open>The loops of one pass, whatever the iteration order.\<close>

lemma merge_key_ord_runs:
  assumes dk: "distinct (map fst (sln_configurations_map c))"
    and run: "merge_key_ord io key c = Inr c'"
  obtains c1 c2 L S W M where
    "intersection_pass key c = Inr (c1, L, S)"
    "pass_inv c key (map fst (sln_configurations_map c)) (c1, L, S)"
    "for_each (rewrite_step key) W c1 = Inr c2"
    "set W = (\<lambda>sln. (sln, residual_of c key sln)) ` contributors c key"
    "distinct (map fst W)"
    "for_each (commit_step key) M c2 = Inr c'"
    "set M = (\<lambda>a. (a, common_list c key a)) ` archs (map fst (sln_configurations_map c))"
    "distinct (map fst M)"
proof -
  let ?slns = "map fst (sln_configurations_map c)"
  from run obtain c1 L S where ip: "intersection_pass key c = Inr (c1, L, S)"
    by (auto simp: merge_key_ord_def split: sum.splits)
  then obtain c2 where
    rc: "remove_common_settings_from_context c1 (in_order io L) S key = Inr c2"
    using run by (auto simp: merge_key_ord_def split: sum.splits)
  then obtain M where
    gm: "get_common_ordered_settings
           (in_order io (get_order_of_common_settings (in_order io L))) S = Inr M"
      and cm: "for_each (commit_step key) (in_order io M) c2 = Inr c'"
    using run ip by (auto simp: merge_key_ord_def split: sum.splits)
  have inv: "pass_inv c key ?slns (c1, L, S)" using intersection_pass_inv[OF ip dk] .
  note pl = pass_lists[OF inv]
  from inv have p3: "\<forall>sln \<in> set ?slns. contribution c key sln = None \<or> snd sln \<noteq> None"
    unfolding pass_inv_def by auto
  let ?L = "in_order io L"
  let ?AL = "map fst ?L"
  have dL: "distinct ?AL" using in_order_keys[OF pl(1)] .
  have Leq: "?L = map (\<lambda>a. (a, contributions c key a)) ?AL"
    using in_order_groups[OF pl(2) pl(1)] .
  have sAL: "set ?AL = archs ?slns"
  proof -
    have "set ?AL = fst ` set L" using in_order_set[OF pl(1), of io] by simp
    then show ?thesis using pl(3) by simp
  qed
  have sndL: "snd g = contributions c key (fst g)" if "g \<in> set ?L" for g
  proof -
    from that have "g \<in> set (map (\<lambda>a. (a, contributions c key a)) ?AL)" using Leq by simp
    then show ?thesis by auto
  qed
  have flat_ok: "\<forall>g \<in> set ?L. snd g \<noteq> [] \<longrightarrow> map_of S (fst g) \<noteq> None"
    using sndL pl(4) by simp
  let ?W = "residuals S ?L"
  have rw: "for_each (rewrite_step key) ?W c1 = Inr c2"
    using rc remove_common_flat[OF flat_ok] by simp
  have setW: "set ?W = (\<lambda>sln. (sln, residual_of c key sln)) ` contributors c key"
    using residuals_set[OF Leq sAL pl(4) p3] by simp
  have dW: "distinct (map fst ?W)" using residuals_distinct[OF Leq dL dk] .
  let ?O = "get_order_of_common_settings ?L"
  have Oeq: "?O = map (\<lambda>a. (a, order_loop 0 (contributions c key a) [])) (map fst ?O)"
  proof -
    have "?O = map (\<lambda>e. (fst e, order_loop 0 (snd e) [])) ?L"
      using get_order_of_common_settings_map[OF dL] .
    also have "\<dots> = map (\<lambda>e. (fst e, order_loop 0 (contributions c key (fst e)) [])) ?L"
      by (rule map_cong[OF refl]) (simp add: sndL)
    also have "\<dots> = map (\<lambda>a. (a, order_loop 0 (contributions c key a) [])) ?AL"
      by (simp add: comp_def)
    finally have e: "?O = map (\<lambda>a. (a, order_loop 0 (contributions c key a) [])) ?AL" .
    then have "map fst ?O = ?AL" by (simp add: comp_def)
    then show ?thesis using e by simp
  qed
  have kO: "map fst ?O = ?AL"
    using get_order_of_common_settings_map[OF dL] by (simp add: comp_def)
  have dO: "distinct (map fst ?O)" using kO dL by simp
  let ?O' = "in_order io ?O"
  have dO': "distinct (map fst ?O')" using in_order_keys[OF dO] .
  have O'eq: "?O' = map (\<lambda>a. (a, order_loop 0 (contributions c key a) [])) (map fst ?O')"
    using in_order_groups[OF Oeq dO] .
  have sO': "set (map fst ?O') = archs ?slns"
  proof -
    have "set (map fst ?O') = fst ` set ?O" using in_order_set[OF dO, of io] by simp
    then show ?thesis using kO sAL by (metis set_map)
  qed
  from get_common_ordered_settings_result[OF gm dO']
  have M1: "M = map (\<lambda>e. (fst e, first_occurrences (snd e) (the (map_of S (fst e))))) ?O'" .
  have fo: "first_occurrences (order_loop 0 (contributions c key a) []) (the (map_of S a))
          = common_list c key a" for a
  proof (cases "contributions c key a = []")
    case True
    then show ?thesis by (simp add: common_list_def order_loop_unfold)
  next
    case False
    then show ?thesis using pl(4)[OF False] by (simp add: common_list_def)
  qed
  have Meq: "M = map (\<lambda>a. (a, common_list c key a)) (map fst ?O')"
    by (subst M1, subst O'eq) (simp add: comp_def fo)
  have kM: "map fst M = map fst ?O'" by (subst Meq) (simp add: comp_def)
  have dM: "distinct (map fst M)" using kM dO' by simp
  have Mg: "M = map (\<lambda>a. (a, common_list c key a)) (map fst M)" using Meq kM by simp
  let ?M = "in_order io M"
  have dM': "distinct (map fst ?M)" using in_order_keys[OF dM] .
  have "set ?M = set M" using in_order_set[OF dM] .
  also have "\<dots> = (\<lambda>a. (a, common_list c key a)) ` set (map fst ?O')"
    by (subst Meq) (simp only: set_map)
  finally have setM: "set ?M = (\<lambda>a. (a, common_list c key a)) ` archs ?slns"
    unfolding sO' .
  show ?thesis using that[OF ip inv rw setW dW cm setM dM'] .
qed

text \<open>
  \<open>merge_data_settings\<close> with the plain dictionaries of every pass iterated in the
  order \<open>io\<close>. The configuration map, the mergeable keys and the per-file contexts
  keep their order.
\<close>

definition merge_keys_ord :: "(string list \<Rightarrow> string list) \<Rightarrow> conv_context \<Rightarrow> error + conv_context" where
  "merge_keys_ord io c = for_each (merge_key_ord io) (lists_of_settings_to_merge (utils c)) c"

fun merge_data_settings_ord :: "(string list \<Rightarrow> string list) \<Rightarrow> context_tree \<Rightarrow> error + context_tree"
  and merge_file_contexts_ord ::
    "(string list \<Rightarrow> string list) \<Rightarrow> (string \<times> context_tree) list
       \<Rightarrow> error + (string \<times> context_tree) list" where
  "merge_data_settings_ord io (ContextTree c fcs) =
     (case merge_keys_ord io c of
        Inl e \<Rightarrow> Inl e
      | Inr c' \<Rightarrow>
         (case fcs of
            None \<Rightarrow> Inr (ContextTree c' None)
          | Some files \<Rightarrow>
             (case merge_file_contexts_ord io files of
                Inl e \<Rightarrow> Inl e
              | Inr files' \<Rightarrow> Inr (ContextTree c' (Some files')))))"
| "merge_file_contexts_ord io [] = Inr []"
| "merge_file_contexts_ord io (entry # rest) =
     (case merge_data_settings_ord io (snd entry) of
        Inl e \<Rightarrow> Inl e
      | Inr t' \<Rightarrow>
         (case merge_file_contexts_ord io rest of
            Inl e \<Rightarrow> Inl e
          | Inr rest' \<Rightarrow> Inr ((fst entry, t') # rest')))"

lemma merge_keys_ord_id: "merge_keys_ord (\<lambda>ks. ks) c = merge_keys c"
  by (simp add: merge_keys_ord_def merge_keys_def merge_key_ord_id)

lemma merge_data_settings_ord_id:
  "merge_data_settings_ord (\<lambda>ks. ks) t = merge_data_settings t"
  "merge_file_contexts_ord (\<lambda>ks. ks) fs = merge_file_contexts fs"
proof (induction t and fs rule: merge_data_settings_merge_file_contexts.induct)
  case (1 c fcs)
  then show ?case by (auto simp: merge_keys_ord_id split: sum.splits option.splits)
next
  case 2
  then show ?case by simp
next
  case (3 entry rest)
  then show ?case by (auto split: sum.splits)
qed

lemma merge_data_settings_ord_root:
  "merge_data_settings_ord io (ContextTree c fcs) = Inr t \<Longrightarrow> merge_keys_ord io c = Inr (ctx t)"
  by (auto split: sum.splits option.splits)

text \<open>
  The store after the intersection pass: the hook has added a baseline record under the
  wildcard key of every entry of the configuration map that had none.
\<close>

definition hook_keys :: "conv_context \<Rightarrow> config_key set" where
  "hook_keys c = (\<lambda>sln. (None, snd sln)) ` set (map fst (sln_configurations_map c))"

definition seeded_record :: "conv_context \<Rightarrow> config_key \<Rightarrow> settings_record option" where
  "seeded_record c k =
     (case map_of (settings c) k of
        Some r \<Rightarrow> Some r
      | None \<Rightarrow> if k \<in> hook_keys c then Some (init_record (utils c) k) else None)"

lemma intersection_pass_store:
  assumes ip: "intersection_pass key c = Inr (c1, L, S)"
    and dk: "distinct (map fst (sln_configurations_map c))"
  shows "map_of (settings c1) k = seeded_record c k"
proof -
  let ?slns = "map fst (sln_configurations_map c)"
  have inv: "pass_inv c key ?slns (c1, L, S)" using intersection_pass_inv[OF ip dk] .
  from inv have sd: "seeded c c1"
      and p1: "\<forall>sln \<in> set ?slns. map_of (settings c1) (None, snd sln) \<noteq> None"
    unfolding pass_inv_def by auto
  have ex: "\<forall>k. map_of (settings (fst (c1, L, S))) k \<noteq> None \<longrightarrow>
              map_of (settings c) k \<noteq> None \<or> k \<in> (\<lambda>sln. (None, snd sln)) ` set ?slns"
  proof (rule for_each_invariant[where
        I = "\<lambda>pre st. \<forall>k. map_of (settings (fst st)) k \<noteq> None \<longrightarrow>
               map_of (settings c) k \<noteq> None \<or> k \<in> (\<lambda>sln. (None, snd sln)) ` set pre"
        and body = "intersection_step key" and s = "(c, [], [])" and xs = ?slns])
    show "for_each (intersection_step key) ?slns (c, [], []) = Inr (c1, L, S)"
      using ip by (simp add: intersection_pass_def)
    show "\<forall>k. map_of (settings (fst (c, [], []))) k \<noteq> None \<longrightarrow>
               map_of (settings c) k \<noteq> None \<or> k \<in> (\<lambda>sln. (None, snd sln)) ` set []"
      by simp
  next
    fix pre :: "config_key list" and x suf
      and t t' :: "conv_context \<times> items_to_merge \<times> items_sets"
    assume i: "\<forall>k. map_of (settings (fst t)) k \<noteq> None \<longrightarrow>
               map_of (settings c) k \<noteq> None \<or> k \<in> (\<lambda>sln. (None, snd sln)) ` set pre"
      and b: "intersection_step key x t = Inr t'"
    obtain ct L0 S0 where t: "t = (ct, L0, S0)" by (cases t)
    obtain c' L' S' where t': "t' = (c', L', S')" by (cases t')
    have c': "c' = step_ctx x ct" using intersection_step_result(1)[OF b[unfolded t t']] .
    show "\<forall>k. map_of (settings (fst t')) k \<noteq> None \<longrightarrow>
               map_of (settings c) k \<noteq> None \<or> k \<in> (\<lambda>sln. (None, snd sln)) ` set (pre @ [x])"
    proof (intro allI impI)
      fix k assume "map_of (settings (fst t')) k \<noteq> None"
      then have "map_of (settings ct) k \<noteq> None \<or> k = (None, snd x)"
        unfolding t' c' by (auto simp: step_ctx_settings map_add_def split: if_splits option.splits)
      then consider "map_of (settings ct) k \<noteq> None" | "k = (None, snd x)" by blast
      then show "map_of (settings c) k \<noteq> None \<or> k \<in> (\<lambda>sln. (None, snd sln)) ` set (pre @ [x])"
      proof cases
        case 1
        have "map_of (settings (fst t)) k \<noteq> None" using 1 by (simp add: t)
        then have "map_of (settings c) k \<noteq> None \<or> k \<in> (\<lambda>sln. (None, snd sln)) ` set pre"
          using i by blast
        then show ?thesis by (metis Un_iff image_Un set_append)
      next
        case 2
        have "x \<in> set (pre @ [x])" by simp
        then show ?thesis unfolding 2 by (metis imageI)
      qed
    qed
  qed
  show ?thesis
  proof (cases "map_of (settings c) k")
    case (Some r)
    then show ?thesis using seeded_present[OF sd Some] by (simp add: seeded_record_def)
  next
    case None
    show ?thesis
    proof (cases "k \<in> hook_keys c")
      case True
      then have "map_of (settings c1) k \<noteq> None" using p1 unfolding hook_keys_def by blast
      then obtain r where r: "map_of (settings c1) k = Some r" by blast
      from seeded_lookup[OF sd r] None have "r = init_record (utils c) k" by simp
      then show ?thesis using r None True by (simp add: seeded_record_def)
    next
      case False
      have "map_of (settings c1) k \<noteq> None \<longrightarrow>
              map_of (settings c) k \<noteq> None \<or> k \<in> hook_keys c"
        using ex unfolding hook_keys_def fst_conv by blast
      then have "map_of (settings c1) k = None" using None False by blast
      then show ?thesis using None False by (simp add: seeded_record_def)
    qed
  qed
qed

text \<open>
  The residual rewrite without any assumption on how the configurations resolve: the
  record written for an entry is the record it started from (its own, or else the one it
  resolves to), with the residual list under the key.
\<close>

definition rewritten ::
  "conv_context \<Rightarrow> string \<Rightarrow> (config_key \<times> string list) list \<Rightarrow> conv_context \<Rightarrow> bool" where
  "rewritten c1 key P c \<longleftrightarrow>
     sln_configurations_map c = remap (fst ` set P) (sln_configurations_map c1)
     \<and> (\<forall>k. k \<notin> fst ` set P \<longrightarrow> map_of (settings c) k = map_of (settings c1) k)
     \<and> (\<forall>e \<in> set P. \<exists>r' r. map_of (settings c) (fst e) = Some r' \<and> base_record c1 (fst e) = Some r
            \<and> map_of r' = (map_of r)(key \<mapsto> PList (snd e)))
     \<and> utils c = utils c1"

lemma rewritten_step:
  assumes dk: "distinct (map fst (sln_configurations_map c1))"
    and inv: "rewritten c1 key P c"
    and fresh: "fst e \<notin> fst ` set P"
    and ce: "contributes c1 (fst e)"
    and step: "rewrite_step key e c = Inr c'"
  shows "rewritten c1 key (P @ [e]) c'"
proof -
  obtain sln res where e: "e = (sln, res)" by (cases e)
  from ce e obtain m rm where m: "map_of (sln_configurations_map c1) sln = Some m"
      and fm: "fst m \<noteq> None" and rm: "map_of (settings c1) m = Some rm"
    by (auto simp: contributes_def)
  from inv have j1: "sln_configurations_map c = remap (fst ` set P) (sln_configurations_map c1)"
      and j2: "\<And>k. k \<notin> fst ` set P \<Longrightarrow> map_of (settings c) k = map_of (settings c1) k"
      and j3: "\<And>p. p \<in> set P \<Longrightarrow> \<exists>r' r. map_of (settings c) (fst p) = Some r'
                  \<and> base_record c1 (fst p) = Some r \<and> map_of r' = (map_of r)(key \<mapsto> PList (snd p))"
      and j4: "utils c = utils c1"
    by (auto simp: rewritten_def)
  have nP: "sln \<notin> fst ` set P" using fresh e by simp
  have mc: "map_of (sln_configurations_map c) sln = Some m"
    using nP by (simp add: j1 map_of_remap m)
  have base: "\<exists>b rb. base_record c sln = Some b \<and> base_record c1 sln = Some rb
                \<and> map_of (AList.update key (PList res) b) = (map_of rb)(key \<mapsto> PList res)"
  proof (cases "map_of (settings c) sln")
    case (Some r)
    then have "map_of (settings c1) sln = Some r" using j2[OF nP] by simp
    then have "base_record c1 sln = Some r" by (simp add: base_record_def)
    then show ?thesis using Some by (simp add: base_record_def update_conv')
  next
    case None
    then have b: "base_record c sln = map_of (settings c) m"
      by (simp add: base_record_def mc)
    have "map_of (settings c1) sln = None" using None j2[OF nP] by simp
    then have b1: "base_record c1 sln = Some rm" by (simp add: base_record_def m rm)
    show ?thesis
    proof (cases "m \<in> fst ` set P")
      case False
      then show ?thesis using b b1 j2[OF False] rm by (simp add: update_conv')
    next
      case True
      then obtain p where p: "p \<in> set P" "fst p = m" by auto
      from j3[OF p(1)] p(2) obtain r' r where r': "map_of (settings c) m = Some r'"
          "base_record c1 m = Some r" "map_of r' = (map_of r)(key \<mapsto> PList (snd p))"
        by auto
      have "r = rm" using r'(2) rm by (simp add: base_record_def)
      then show ?thesis using b b1 r' by (simp add: update_conv')
    qed
  qed
  then obtain b rb where b: "base_record c sln = Some b" and rb: "base_record c1 sln = Some rb"
      and bm: "map_of (AList.update key (PList res) b) = (map_of rb)(key \<mapsto> PList res)"
    by blast
  have c': "c' = c\<lparr>settings := AList.update sln (AList.update key (PList res) b) (settings c),
                    sln_configurations_map :=
                      AList.update sln sln (sln_configurations_map c)\<rparr>"
    using step by (simp add: rewrite_step_def e update_settings_at_context_eq b)
  have ink: "sln \<in> fst ` set (sln_configurations_map c1)"
    using m by (meson domI domIff map_of_eq_None_iff)
  have k1: "sln_configurations_map c' = remap (fst ` set (P @ [e])) (sln_configurations_map c1)"
    using update_remap[OF dk ink, of "fst ` set P"] by (simp add: c' j1 e)
  have k2: "\<And>k. k \<notin> fst ` set (P @ [e]) \<Longrightarrow> map_of (settings c') k = map_of (settings c1) k"
    using j2 by (auto simp: c' e update_conv')
  have k3: "\<And>p. p \<in> set (P @ [e]) \<Longrightarrow> \<exists>r' r. map_of (settings c') (fst p) = Some r'
                  \<and> base_record c1 (fst p) = Some r \<and> map_of r' = (map_of r)(key \<mapsto> PList (snd p))"
  proof -
    fix p assume "p \<in> set (P @ [e])"
    then consider "p \<in> set P" | "p = e" by auto
    then show "\<exists>r' r. map_of (settings c') (fst p) = Some r'
                  \<and> base_record c1 (fst p) = Some r \<and> map_of r' = (map_of r)(key \<mapsto> PList (snd p))"
    proof cases
      case 1
      then have "fst p \<noteq> sln" using nP by auto
      then show ?thesis using j3[OF 1] by (simp add: c' update_conv')
    next
      case 2
      then show ?thesis using rb bm by (simp add: e c' update_conv')
    qed
  qed
  show ?thesis
    unfolding rewritten_def using k1 k2 k3 j4 by (simp add: c')
qed

lemma rewritten_all:
  assumes dk: "distinct (map fst (sln_configurations_map c1))"
    and dW: "distinct (map fst W)"
    and cW: "\<forall>e \<in> set W. contributes c1 (fst e)"
    and run: "for_each (rewrite_step key) W c1 = Inr c2"
  shows "rewritten c1 key W c2"
proof (rule for_each_invariant[where I = "rewritten c1 key", OF run])
  show "rewritten c1 key [] c1" by (simp add: rewritten_def)
next
  fix pre x suf t t'
  assume W: "W = pre @ x # suf" and i: "rewritten c1 key pre t"
    and b: "rewrite_step key x t = Inr t'"
  have "fst x \<notin> fst ` set pre" using dW W by auto
  moreover have "contributes c1 (fst x)" using cW W by auto
  ultimately show "rewritten c1 key (pre @ [x]) t'"
    using rewritten_step[OF dk i _ _ b] by blast
qed

text \<open>
  The store after the pass for a key, as a dictionary of dictionaries and in terms of the
  input alone: \<open>origin_key\<close> is the store key whose record the record under
  \<open>k\<close> started from.
\<close>

definition origin_key :: "conv_context \<Rightarrow> string \<Rightarrow> config_key \<Rightarrow> config_key" where
  "origin_key c key k =
     (if k \<in> contributors c key \<and> seeded_record c k = None
      then the (map_of (sln_configurations_map c) k) else k)"

definition merged_lookup :: "conv_context \<Rightarrow> string \<Rightarrow> config_key \<Rightarrow> string \<Rightarrow> pyval option" where
  "merged_lookup c key k name =
     (if name = key \<and> k \<in> wild ` archs (map fst (sln_configurations_map c))
      then Some (PList (common_list c key (the (snd k))))
      else if name = key \<and> k \<in> contributors c key
      then Some (PList (residual_of c key k))
      else (case seeded_record c (origin_key c key k) of None \<Rightarrow> None | Some r \<Rightarrow> map_of r name))"

lemma merge_key_ord_effect:
  assumes dk: "distinct (map fst (sln_configurations_map c))"
    and run: "merge_key_ord io key c = Inr c'"
  shows "\<And>k name. lookup (settings c') k name = merged_lookup c key k name"
    and "\<And>k. (map_of (settings c') k = None) = (seeded_record c (origin_key c key k) = None)"
    and "\<And>k. map_of (sln_configurations_map c') k
              = (if k \<in> wild ` archs (map fst (sln_configurations_map c)) \<union> contributors c key
                 then Some k else map_of (sln_configurations_map c) k)"
    and "\<exists>new. map fst (sln_configurations_map c') = map fst (sln_configurations_map c) @ new
              \<and> set new \<subseteq> wild ` archs (map fst (sln_configurations_map c))"
    and "distinct (map fst (sln_configurations_map c'))"
    and "utils c' = utils c"
proof -
  let ?slns = "map fst (sln_configurations_map c)"
  let ?A = "archs (map fst (sln_configurations_map c))"
  let ?Ks = "contributors c key"
  obtain c1 c2 L S W M where
    ip: "intersection_pass key c = Inr (c1, L, S)"
    and inv: "pass_inv c key ?slns (c1, L, S)"
    and rw: "for_each (rewrite_step key) W c1 = Inr c2"
    and setW: "set W = (\<lambda>sln. (sln, residual_of c key sln)) ` ?Ks"
    and dW: "distinct (map fst W)"
    and cm: "for_each (commit_step key) M c2 = Inr c'"
    and setM: "set M = (\<lambda>a. (a, common_list c key a)) ` ?A"
    and dM: "distinct (map fst M)"
    by (rule merge_key_ord_runs[OF dk run])
  from inv have sd: "seeded c c1" unfolding pass_inv_def by auto
  have m1: "sln_configurations_map c1 = sln_configurations_map c"
    and u1: "utils c1 = utils c"
    using sd by (simp_all add: seeded_def)
  have sr: "\<And>k. map_of (settings c1) k = seeded_record c k"
    using intersection_pass_store[OF ip dk] .
  have dk1: "distinct (map fst (sln_configurations_map c1))" using dk m1 by simp
  have cW: "\<forall>e \<in> set W. contributes c1 (fst e)"
    using setW contributes_seeded[OF sd] by auto
  have rwn: "rewritten c1 key W c2" using rewritten_all[OF dk1 dW cW rw] .
  have ci: "commit_inv c2 key M c'" using commit_inv_all[OF cm dM] .
  have fW: "fst ` set W = ?Ks" unfolding setW by (simp add: image_image)
  have fM: "fst ` set M = ?A" unfolding setM by (simp add: image_image)
  from rwn have r1: "sln_configurations_map c2 = remap ?Ks (sln_configurations_map c)"
      and r2: "\<And>k. k \<notin> ?Ks \<Longrightarrow> map_of (settings c2) k = map_of (settings c1) k"
      and r3: "\<And>e. e \<in> set W \<Longrightarrow> \<exists>r' r. map_of (settings c2) (fst e) = Some r'
                  \<and> base_record c1 (fst e) = Some r \<and> map_of r' = (map_of r)(key \<mapsto> PList (snd e))"
      and r4: "utils c2 = utils c1"
    unfolding rewritten_def fW m1 by blast+
  from ci have q1: "\<And>k. map_of (sln_configurations_map c') k
            = (if k \<in> wild ` ?A then Some k else map_of (sln_configurations_map c2) k)"
      and q2: "\<exists>new. map fst (sln_configurations_map c') = map fst (sln_configurations_map c2) @ new
              \<and> set new \<subseteq> wild ` ?A"
      and q3: "distinct (map fst (sln_configurations_map c2))
                 \<longrightarrow> distinct (map fst (sln_configurations_map c'))"
      and q4: "\<And>k. k \<notin> wild ` ?A \<Longrightarrow> map_of (settings c') k = map_of (settings c2) k"
      and q5: "\<And>e. e \<in> set M \<Longrightarrow> \<exists>r. map_of (settings c2) (wild (fst e)) = Some r
            \<and> map_of (settings c') (wild (fst e)) = Some (AList.update key (PList (snd e)) r)"
      and q6: "utils c' = utils c2"
    unfolding commit_inv_def fM by blast+
  have KsD: "\<And>sln. sln \<in> ?Ks \<Longrightarrow> map_of (sln_configurations_map c) sln \<noteq> None"
    unfolding contributors_def by (auto simp: contribution_def split: option.splits)
  show "\<And>k. map_of (sln_configurations_map c') k
              = (if k \<in> wild ` ?A \<union> ?Ks then Some k else map_of (sln_configurations_map c) k)"
  proof -
    fix k
    have "map_of (remap ?Ks (sln_configurations_map c)) k
            = (if k \<in> ?Ks then Some k else map_of (sln_configurations_map c) k)"
      using KsD[of k] by (cases "map_of (sln_configurations_map c) k") (auto simp: map_of_remap)
    then show "map_of (sln_configurations_map c') k
              = (if k \<in> wild ` ?A \<union> ?Ks then Some k else map_of (sln_configurations_map c) k)"
      by (simp add: q1 r1)
  qed
  show "\<exists>new. map fst (sln_configurations_map c') = map fst (sln_configurations_map c) @ new
              \<and> set new \<subseteq> wild ` ?A"
    using q2 by (simp add: r1)
  show "distinct (map fst (sln_configurations_map c'))"
    using q3 dk by (simp add: r1)
  show "utils c' = utils c" using q6 r4 u1 by simp
  have base: "base_record c1 k = seeded_record c (origin_key c key k)" if k: "k \<in> ?Ks" for k
  proof -
    from KsD[OF k] obtain m where m: "map_of (sln_configurations_map c) k = Some m" by blast
    show ?thesis
      by (cases "seeded_record c k") (simp_all add: base_record_def sr m1 m origin_key_def k)
  qed
  have R2: "\<exists>r' rb. map_of (settings c2) k = Some r'
              \<and> seeded_record c (origin_key c key k) = Some rb
              \<and> map_of r' = (map_of rb)(key \<mapsto> PList (residual_of c key k))"
    if k: "k \<in> ?Ks" for k
  proof -
    from k have "(k, residual_of c key k) \<in> set W" unfolding setW by blast
    from r3[OF this] show ?thesis using base[OF k] by simp
  qed
  have R2n: "map_of (settings c2) k = seeded_record c (origin_key c key k)" if "k \<notin> ?Ks" for k
    using r2[OF that] sr that by (simp add: origin_key_def)
  have L2: "lookup (settings c2) k name
              = (case seeded_record c (origin_key c key k) of None \<Rightarrow> None | Some r \<Rightarrow> map_of r name)"
    if "name \<noteq> key \<or> k \<notin> ?Ks" for k name
  proof (cases "k \<in> ?Ks")
    case True
    then have ne: "name \<noteq> key" using that by blast
    from R2[OF True] obtain r' rb where "map_of (settings c2) k = Some r'"
        "seeded_record c (origin_key c key k) = Some rb"
        "map_of r' = (map_of rb)(key \<mapsto> PList (residual_of c key k))" by blast
    then show ?thesis using ne by (simp add: lookup_def)
  next
    case False
    then show ?thesis using R2n[OF False] by (simp add: lookup_def)
  qed
  have L2k: "lookup (settings c2) k key = Some (PList (residual_of c key k))" if k: "k \<in> ?Ks" for k
  proof -
    from R2[OF k] obtain r' rb where "map_of (settings c2) k = Some r'"
        "map_of r' = (map_of rb)(key \<mapsto> PList (residual_of c key k))" by blast
    then show ?thesis by (simp add: lookup_def)
  qed
  have P2: "(map_of (settings c2) k = None) = (seeded_record c (origin_key c key k) = None)" for k
  proof (cases "k \<in> ?Ks")
    case True
    from R2[OF True] show ?thesis by auto
  next
    case False
    then show ?thesis using R2n[OF False] by simp
  qed
  show "\<And>k name. lookup (settings c') k name = merged_lookup c key k name"
  proof -
    fix k name
    show "lookup (settings c') k name = merged_lookup c key k name"
    proof (cases "k \<in> wild ` ?A")
      case True
      then obtain a where a: "a \<in> ?A" "k = wild a" by blast
      then have "(a, common_list c key a) \<in> set M" unfolding setM by blast
      from q5[OF this] obtain r where r: "map_of (settings c2) k = Some r"
          "map_of (settings c') k = Some (AList.update key (PList (common_list c key a)) r)"
        using a(2) by auto
      show ?thesis
      proof (cases "name = key")
        case True
        then show ?thesis using r(2) a \<open>k \<in> wild ` ?A\<close>
          by (simp add: lookup_def merged_lookup_def update_conv')
      next
        case False
        have "lookup (settings c') k name = lookup (settings c2) k name"
          using r False by (simp add: lookup_def update_conv')
        then show ?thesis using L2[of name k] False by (simp add: merged_lookup_def)
      qed
    next
      case False
      have e: "lookup (settings c') k name = lookup (settings c2) k name"
        using q4[OF False] by (simp add: lookup_def)
      show ?thesis
      proof (cases "name = key \<and> k \<in> ?Ks")
        case True
        then show ?thesis using e L2k[of k] False by (simp add: merged_lookup_def)
      next
        case nk: False
        then have "name \<noteq> key \<or> k \<notin> ?Ks" by blast
        from L2[OF this] have "lookup (settings c') k name
              = (case seeded_record c (origin_key c key k) of None \<Rightarrow> None | Some r \<Rightarrow> map_of r name)"
          using e by simp
        moreover have "merged_lookup c key k name
              = (case seeded_record c (origin_key c key k) of None \<Rightarrow> None | Some r \<Rightarrow> map_of r name)"
          using nk False unfolding merged_lookup_def by (simp only: if_False simp_thms)
        ultimately show ?thesis by simp
      qed
    qed
  qed
  show "\<And>k. (map_of (settings c') k = None) = (seeded_record c (origin_key c key k) = None)"
  proof -
    fix k
    show "(map_of (settings c') k = None) = (seeded_record c (origin_key c key k) = None)"
    proof (cases "k \<in> wild ` ?A")
      case True
      then obtain a where a: "a \<in> ?A" "k = wild a" by blast
      then have "(a, common_list c key a) \<in> set M" unfolding setM by blast
      from q5[OF this] have n2: "map_of (settings c2) k \<noteq> None"
        and n3: "map_of (settings c') k \<noteq> None"
        using a(2) by auto
      have "seeded_record c (origin_key c key k) \<noteq> None" using P2[of k] n2 by auto
      then show ?thesis using n3 by auto
    next
      case False
      then show ?thesis using q4[OF False] P2[of k] by simp
    qed
  qed
qed

text \<open>
  Two contexts that hold the same dictionaries: the stores are equal as dictionaries of
  dictionaries, the configuration maps are equal as dictionaries, and the entries of the
  maps that resolve to a concrete key come in the same order (these are the entries that
  can contribute a list, and their order decides the order of a common list).
\<close>

definition concrete_target :: "conv_context \<Rightarrow> config_key \<Rightarrow> bool" where
  "concrete_target c k =
     (case map_of (sln_configurations_map c) k of None \<Rightarrow> False | Some m \<Rightarrow> fst m \<noteq> None)"

definition same_dicts :: "conv_context \<Rightarrow> conv_context \<Rightarrow> bool" where
  "same_dicts c d \<longleftrightarrow>
     utils c = utils d
     \<and> distinct (map fst (sln_configurations_map c))
     \<and> distinct (map fst (sln_configurations_map d))
     \<and> map_of (sln_configurations_map c) = map_of (sln_configurations_map d)
     \<and> filter (concrete_target c) (map fst (sln_configurations_map c))
         = filter (concrete_target d) (map fst (sln_configurations_map d))
     \<and> (\<forall>k. (map_of (settings c) k = None) = (map_of (settings d) k = None))
     \<and> (\<forall>k name. lookup (settings c) k name = lookup (settings d) k name)"

lemma same_dicts_refl:
  "distinct (map fst (sln_configurations_map c)) \<Longrightarrow> same_dicts c c"
  by (simp add: same_dicts_def)

lemma same_dictsD:
  assumes "same_dicts c d"
  shows "utils c = utils d"
    and "distinct (map fst (sln_configurations_map c))"
    and "distinct (map fst (sln_configurations_map d))"
    and "map_of (sln_configurations_map c) = map_of (sln_configurations_map d)"
    and "filter (concrete_target c) (map fst (sln_configurations_map c))
           = filter (concrete_target d) (map fst (sln_configurations_map d))"
    and "\<And>k. (map_of (settings c) k = None) = (map_of (settings d) k = None)"
    and "\<And>k name. lookup (settings c) k name = lookup (settings d) k name"
  using assms unfolding same_dicts_def by blast+

lemma same_dicts_keys:
  assumes "same_dicts c d"
  shows "set (map fst (sln_configurations_map c)) = set (map fst (sln_configurations_map d))"
proof -
  have "dom (map_of (sln_configurations_map c)) = dom (map_of (sln_configurations_map d))"
    using same_dictsD(4)[OF assms] by simp
  then show ?thesis by (simp add: dom_map_of_conv_image_fst)
qed

lemma same_dicts_target: "same_dicts c d \<Longrightarrow> concrete_target c = concrete_target d"
  by (rule ext) (simp add: concrete_target_def same_dictsD(4))

lemma same_dicts_hook_keys: "same_dicts c d \<Longrightarrow> hook_keys c = hook_keys d"
  unfolding hook_keys_def using same_dicts_keys by metis

lemma same_dicts_archs:
  "same_dicts c d \<Longrightarrow> archs (map fst (sln_configurations_map c))
                        = archs (map fst (sln_configurations_map d))"
  unfolding archs_def using same_dicts_keys by metis

lemma same_dicts_contribution:
  assumes "same_dicts c d"
  shows "contribution c key sln = contribution d key sln"
  unfolding contribution_def same_dictsD(4)[OF assms] same_dictsD(7)[OF assms] ..

lemma same_dicts_contributors:
  "same_dicts c d \<Longrightarrow> contributors c key = contributors d key"
  using same_dicts_contribution[of c d key] by (auto simp: contributors_iff)

lemma contribution_concrete_target:
  "contribution c key sln \<noteq> None \<Longrightarrow> concrete_target c sln"
  by (auto simp: contribution_def concrete_target_def split: option.splits if_splits)

lemma same_dicts_contributions:
  assumes "same_dicts c d"
  shows "contributions c key a = contributions d key a"
proof -
  let ?Q = "\<lambda>sln. snd sln = Some a \<and> contribution c key sln \<noteq> None"
  let ?T = "concrete_target c"
  have f: "filter ?Q xs = filter ?Q (filter ?T xs)" for xs
  proof -
    have "filter ?Q (filter ?T xs) = filter (\<lambda>x. ?T x \<and> ?Q x) xs" by (simp only: filter_filter)
    also have "\<dots> = filter ?Q xs"
      by (rule filter_cong[OF refl]) (use contribution_concrete_target[of c key] in blast)
    finally show ?thesis by simp
  qed
  have t: "filter ?T (map fst (sln_configurations_map c)) = filter ?T (map fst (sln_configurations_map d))"
    using same_dictsD(5)[OF assms] same_dicts_target[OF assms] by simp
  have "filter ?Q (map fst (sln_configurations_map c)) = filter ?Q (map fst (sln_configurations_map d))"
    by (subst f, subst (2) f) (simp only: t)
  then show ?thesis
    by (simp add: contributions_def contributing_def same_dicts_contribution[OF assms])
qed

lemma same_dicts_lists:
  assumes "same_dicts c d"
  shows "common_list c key a = common_list d key a"
    and "residual_of c key sln = residual_of d key sln"
  by (simp_all add: common_list_def residual_of_def common_values_def
      same_dicts_contributions[OF assms] same_dicts_contribution[OF assms])

lemma seeded_record_lookup:
  "(case seeded_record c k of None \<Rightarrow> None | Some r \<Rightarrow> map_of r name)
     = (if map_of (settings c) k = None
        then (if k \<in> hook_keys c then map_of (init_record (utils c) k) name else None)
        else lookup (settings c) k name)"
  by (simp add: seeded_record_def lookup_def split: option.splits)

lemma seeded_record_present:
  "(seeded_record c k = None) = (map_of (settings c) k = None \<and> k \<notin> hook_keys c)"
  by (simp add: seeded_record_def split: option.splits)

lemma same_dicts_seeded:
  assumes "same_dicts c d"
  shows "(seeded_record c k = None) = (seeded_record d k = None)"
    and "(case seeded_record c k of None \<Rightarrow> None | Some r \<Rightarrow> map_of r name)
           = (case seeded_record d k of None \<Rightarrow> None | Some r \<Rightarrow> map_of r name)"
  unfolding seeded_record_lookup seeded_record_present
  by (simp_all add: same_dictsD(1,6,7)[OF assms] same_dicts_hook_keys[OF assms])

lemma same_dicts_origin:
  assumes "same_dicts c d"
  shows "origin_key c key k = origin_key d key k"
  by (simp add: origin_key_def same_dicts_contributors[OF assms] same_dicts_seeded(1)[OF assms]
      same_dictsD(4)[OF assms])

lemma same_dicts_merged_lookup:
  assumes "same_dicts c d"
  shows "merged_lookup c key k name = merged_lookup d key k name"
  unfolding merged_lookup_def
  by (simp only: same_dicts_archs[OF assms] same_dicts_contributors[OF assms]
      same_dicts_lists[OF assms] same_dicts_origin[OF assms] same_dicts_seeded(2)[OF assms])

lemma merge_key_ord_targets:
  assumes dk: "distinct (map fst (sln_configurations_map c))"
    and run: "merge_key_ord io key c = Inr c'"
  shows "filter (concrete_target c') (map fst (sln_configurations_map c'))
           = filter (concrete_target c') (filter (concrete_target c) (map fst (sln_configurations_map c)))"
proof -
  let ?A = "archs (map fst (sln_configurations_map c))"
  let ?Ks = "contributors c key"
  note E = merge_key_ord_effect[OF dk run]
  from E(4) obtain new where new: "map fst (sln_configurations_map c')
        = map fst (sln_configurations_map c) @ new" "set new \<subseteq> wild ` ?A" by blast
  have nw: "\<not> concrete_target c' k" if "k \<in> wild ` ?A" for k
  proof -
    have "map_of (sln_configurations_map c') k = Some k" using E(3)[of k] that by simp
    moreover have "fst k = None" using that by auto
    ultimately show ?thesis by (simp add: concrete_target_def)
  qed
  have "filter (concrete_target c') new = []"
    using nw new(2) by (auto simp: filter_empty_conv)
  then have a: "filter (concrete_target c') (map fst (sln_configurations_map c'))
                  = filter (concrete_target c') (map fst (sln_configurations_map c))"
    by (simp add: new(1))
  have imp: "concrete_target c k" if t: "concrete_target c' k" for k
  proof -
    have nA: "k \<notin> wild ` ?A" using nw t by blast
    show ?thesis
    proof (cases "k \<in> ?Ks")
      case True
      then show ?thesis using contribution_concrete_target[of c key k] by (simp add: contributors_iff)
    next
      case False
      then have "map_of (sln_configurations_map c') k = map_of (sln_configurations_map c) k"
        using E(3)[of k] nA by simp
      then show ?thesis using t by (simp add: concrete_target_def)
    qed
  qed
  have "filter (concrete_target c') (filter (concrete_target c) xs) = filter (concrete_target c') xs"
    for xs
  proof -
    have "filter (concrete_target c') (filter (concrete_target c) xs)
            = filter (\<lambda>x. concrete_target c x \<and> concrete_target c' x) xs"
      by (simp only: filter_filter)
    also have "\<dots> = filter (concrete_target c') xs"
      by (rule filter_cong[OF refl]) (use imp in blast)
    finally show ?thesis .
  qed
  then show ?thesis using a by simp
qed

lemma same_dicts_merge_key:
  assumes E: "same_dicts c d"
    and run1: "merge_key_ord io1 key c = Inr c'"
    and run2: "merge_key_ord io2 key d = Inr d'"
  shows "same_dicts c' d'"
proof -
  note D = same_dictsD[OF E]
  note F1 = merge_key_ord_effect[OF D(2) run1]
  note F2 = merge_key_ord_effect[OF D(3) run2]
  have u: "utils c' = utils d'" using F1(6) F2(6) D(1) by simp
  have m: "map_of (sln_configurations_map c') = map_of (sln_configurations_map d')"
  proof
    fix k
    show "map_of (sln_configurations_map c') k = map_of (sln_configurations_map d') k"
      unfolding F1(3) F2(3) same_dicts_archs[OF E] same_dicts_contributors[OF E] D(4) ..
  qed
  have t: "concrete_target c' = concrete_target d'"
    by (rule ext) (simp add: concrete_target_def m)
  have f: "filter (concrete_target c') (map fst (sln_configurations_map c'))
         = filter (concrete_target d') (map fst (sln_configurations_map d'))"
  proof -
    have "filter (concrete_target c') (map fst (sln_configurations_map c'))
            = filter (concrete_target c')
                (filter (concrete_target c) (map fst (sln_configurations_map c)))"
      using merge_key_ord_targets[OF D(2) run1] .
    also have "\<dots> = filter (concrete_target d')
                (filter (concrete_target d) (map fst (sln_configurations_map d)))"
      by (simp only: t D(5))
    also have "\<dots> = filter (concrete_target d') (map fst (sln_configurations_map d'))"
      using merge_key_ord_targets[OF D(3) run2] by simp
    finally show ?thesis .
  qed
  have p: "(map_of (settings c') k = None) = (map_of (settings d') k = None)" for k
    unfolding F1(2) F2(2) same_dicts_origin[OF E] same_dicts_seeded(1)[OF E] ..
  have l: "lookup (settings c') k name = lookup (settings d') k name" for k name
    unfolding F1(1) F2(1) same_dicts_merged_lookup[OF E] ..
  show ?thesis unfolding same_dicts_def using u F1(5) F2(5) m f p l by blast
qed

lemma same_dicts_merge_keys:
  assumes "same_dicts c d"
    and "for_each (merge_key_ord io1) ks c = Inr c'"
    and "for_each (merge_key_ord io2) ks d = Inr d'"
  shows "same_dicts c' d'"
  using assms
proof (induction ks arbitrary: c d)
  case Nil
  then show ?case by simp
next
  case (Cons k ks)
  from Cons.prems(2) obtain c1 where s1: "merge_key_ord io1 k c = Inr c1"
      and r1: "for_each (merge_key_ord io1) ks c1 = Inr c'"
    by (auto split: sum.splits)
  from Cons.prems(3) obtain d1 where s2: "merge_key_ord io2 k d = Inr d1"
      and r2: "for_each (merge_key_ord io2) ks d1 = Inr d'"
    by (auto split: sum.splits)
  show ?case using Cons.IH[OF same_dicts_merge_key[OF Cons.prems(1) s1 s2] r1 r2] .
qed

text \<open>
  C4: the result of the merge does not depend on the iteration order of the plain
  dictionaries. Two runs of the merge on the same input (a configuration map with distinct
  keys), with iteration orders \<open>io1\<close> and \<open>io2\<close>, leave the same store
  and the same configuration map, as dictionaries: every record holds the same value under
  every setting name (so every common list and every residual list is the same), the same
  store keys are present, and every key of the map resolves to the same key. With the
  insertion order the run is \<open>merge_data_settings\<close>.
\<close>

theorem merge_data_settings_iteration_order:
  assumes dk: "distinct (map fst (sln_configurations_map c))"
    and run1: "merge_data_settings_ord io1 (ContextTree c fcs) = Inr t"
    and run2: "merge_data_settings_ord io2 (ContextTree c fcs) = Inr u"
  shows "(\<forall>k name. lookup (settings (ctx t)) k name = lookup (settings (ctx u)) k name)
       \<and> (\<forall>k. (map_of (settings (ctx t)) k = None) = (map_of (settings (ctx u)) k = None))
       \<and> map_of (sln_configurations_map (ctx t)) = map_of (sln_configurations_map (ctx u))
       \<and> merge_data_settings_ord (\<lambda>ks. ks) (ContextTree c fcs)
           = merge_data_settings (ContextTree c fcs)"
proof -
  let ?ks = "lists_of_settings_to_merge (utils c)"
  have mk1: "for_each (merge_key_ord io1) ?ks c = Inr (ctx t)"
    using merge_data_settings_ord_root[OF run1] by (simp add: merge_keys_ord_def)
  have mk2: "for_each (merge_key_ord io2) ?ks c = Inr (ctx u)"
    using merge_data_settings_ord_root[OF run2] by (simp add: merge_keys_ord_def)
  note D = same_dictsD[OF same_dicts_merge_keys[OF same_dicts_refl[OF dk] mk1 mk2]]
  show ?thesis using D(4,6,7) merge_data_settings_ord_id(1) by blast
qed

text \<open>
  An example with two architectures, run in the orders \<open>\<lambda>ks. ks\<close> and
  \<open>rev\<close>: the entries appended to the store and to the map come in different
  orders, the lists are the same.
\<close>

definition two_arch_context :: conv_context where
  "two_arch_context =
     \<lparr>settings = [((Some ''Debug'', Some ''x64''), [(''defines'', PList [''X'', ''Y'', ''Z''])]),
                  ((Some ''Release'', Some ''x64''), [(''defines'', PList [''Y'', ''X'', ''W''])]),
                  ((Some ''Debug'', Some ''x86''), [(''defines'', PList [''A'', ''B''])]),
                  ((Some ''Release'', Some ''x86''), [(''defines'', PList [''B'', ''C''])])],
      sln_configurations_map =
        [((Some ''Debug'', Some ''x64''), (Some ''Debug'', Some ''x64'')),
         ((Some ''Release'', Some ''x64''), (Some ''Release'', Some ''x64'')),
         ((Some ''Profile'', Some ''x64''), (Some ''Release'', Some ''x64'')),
         ((Some ''Debug'', Some ''x86''), (Some ''Debug'', Some ''x86'')),
         ((Some ''Release'', Some ''x86''), (Some ''Release'', Some ''x86'')),
         ((Some ''Profile'', Some ''x86''), (Some ''Release'', Some ''x86''))],
      configurations_to_parse = {},
      current_setting = (None, None),
      vcxproj_path = ''p.vcxproj'',
      messages = [],
      utils = scenario_utils\<rparr>"


definition two_arch_merged ::
  "(config_key \<times> settings_record) list \<Rightarrow> (config_key \<times> config_key) list \<Rightarrow> conv_context" where
  "two_arch_merged copied appended =
     two_arch_context
       \<lparr>settings := [((Some ''Debug'', Some ''x64''), [(''defines'', PList [''Z''])]),
                     ((Some ''Release'', Some ''x64''), [(''defines'', PList [''W''])]),
                     ((Some ''Debug'', Some ''x86''), [(''defines'', PList [''A''])]),
                     ((Some ''Release'', Some ''x86''), [(''defines'', PList [''C''])]),
                     ((None, Some ''x64''), [(''defines'', PList [''X'', ''Y''])]),
                     ((None, Some ''x86''), [(''defines'', PList [''B''])])] @ copied,
         sln_configurations_map :=
           [((Some ''Debug'', Some ''x64''), (Some ''Debug'', Some ''x64'')),
            ((Some ''Release'', Some ''x64''), (Some ''Release'', Some ''x64'')),
            ((Some ''Profile'', Some ''x64''), (Some ''Profile'', Some ''x64'')),
            ((Some ''Debug'', Some ''x86''), (Some ''Debug'', Some ''x86'')),
            ((Some ''Release'', Some ''x86''), (Some ''Release'', Some ''x86'')),
            ((Some ''Profile'', Some ''x86''), (Some ''Profile'', Some ''x86''))] @ appended,
         current_setting := (None, Some ''x86'')\<rparr>"

lemmas merge_ord_eval =
  merge_keys_ord_def merge_key_ord_def in_order_def intersection_pass_def intersection_step_def
  Let_def init_context_current_setting_def get_order_of_common_settings_def order_loop_unfold
  get_common_ordered_settings_def common_arch_def remove_common_settings_from_context_def
  remove_common_arch_def remove_common_step_def update_settings_at_context_def commit_step_def

lemma two_arch_run:
  "merge_data_settings_ord (\<lambda>ks. ks) (ContextTree two_arch_context None)
     = Inr (ContextTree
              (two_arch_merged
                 [((Some ''Profile'', Some ''x64''), [(''defines'', PList [''W''])]),
                  ((Some ''Profile'', Some ''x86''), [(''defines'', PList [''C''])])]
                 [((None, Some ''x64''), (None, Some ''x64'')),
                  ((None, Some ''x86''), (None, Some ''x86''))]) None)"
  by (simp add: merge_ord_eval two_arch_context_def two_arch_merged_def scenario_utils_def)

lemma two_arch_run_rev:
  "merge_data_settings_ord rev (ContextTree two_arch_context None)
     = Inr (ContextTree
              (two_arch_merged
                 [((Some ''Profile'', Some ''x86''), [(''defines'', PList [''C''])]),
                  ((Some ''Profile'', Some ''x64''), [(''defines'', PList [''W''])])]
                 [((None, Some ''x86''), (None, Some ''x86'')),
                  ((None, Some ''x64''), (None, Some ''x64''))]) None)"
  by (simp add: merge_ord_eval two_arch_context_def two_arch_merged_def scenario_utils_def)

theorem merge_data_settings_iteration_order_witness:
  "distinct (map fst (sln_configurations_map two_arch_context))
   \<and> merge_data_settings_ord (\<lambda>ks. ks) (ContextTree two_arch_context None)
     = Inr (ContextTree
              (two_arch_merged
                 [((Some ''Profile'', Some ''x64''), [(''defines'', PList [''W''])]),
                  ((Some ''Profile'', Some ''x86''), [(''defines'', PList [''C''])])]
                 [((None, Some ''x64''), (None, Some ''x64'')),
                  ((None, Some ''x86''), (None, Some ''x86''))]) None)
   \<and> merge_data_settings_ord rev (ContextTree two_arch_context None)
     = Inr (ContextTree
              (two_arch_merged
                 [((Some ''Profile'', Some ''x86''), [(''defines'', PList [''C''])]),
                  ((Some ''Profile'', Some ''x64''), [(''defines'', PList [''W''])])]
                 [((None, Some ''x86''), (None, Some ''x86'')),
                  ((None, Some ''x64''), (None, Some ''x64''))]) None)
   \<and> (\<forall>k name.
         lookup (settings (two_arch_merged
                 [((Some ''Profile'', Some ''x64''), [(''defines'', PList [''W''])]),
                  ((Some ''Profile'', Some ''x86''), [(''defines'', PList [''C''])])]
                 [((None, Some ''x64''), (None, Some ''x64'')),
                  ((None, Some ''x86''), (None, Some ''x86''))])) k name
         = lookup (settings (two_arch_merged
                 [((Some ''Profile'', Some ''x86''), [(''defines'', PList [''C''])]),
                  ((Some ''Profile'', Some ''x64''), [(''defines'', PList [''W''])])]
                 [((None, Some ''x86''), (None, Some ''x86'')),
                  ((None, Some ''x64''), (None, Some ''x64''))])) k name)
   \<and> merge_data_settings (ContextTree two_arch_context None)
     = Inr (ContextTree
              (two_arch_merged
                 [((Some ''Profile'', Some ''x64''), [(''defines'', PList [''W''])]),
                  ((Some ''Profile'', Some ''x86''), [(''defines'', PList [''C''])])]
                 [((None, Some ''x64''), (None, Some ''x64'')),
                  ((None, Some ''x86''), (None, Some ''x86''))]) None)"
proof -
  have dk: "distinct (map fst (sln_configurations_map two_arch_context))"
    by (simp add: two_arch_context_def)
  note t = merge_data_settings_iteration_order[OF dk two_arch_run two_arch_run_rev]
  have l: "\<forall>k name.
         lookup (settings (two_arch_merged
                 [((Some ''Profile'', Some ''x64''), [(''defines'', PList [''W''])]),
                  ((Some ''Profile'', Some ''x86''), [(''defines'', PList [''C''])])]
                 [((None, Some ''x64''), (None, Some ''x64'')),
                  ((None, Some ''x86''), (None, Some ''x86''))])) k name
         = lookup (settings (two_arch_merged
                 [((Some ''Profile'', Some ''x86''), [(''defines'', PList [''C''])]),
                  ((Some ''Profile'', Some ''x64''), [(''defines'', PList [''W''])])]
                 [((None, Some ''x86''), (None, Some ''x86'')),
                  ((None, Some ''x64''), (None, Some ''x64''))])) k name"
    using t by (simp only: context_tree.sel) blast
  have m: "merge_data_settings (ContextTree two_arch_context None)
     = Inr (ContextTree
              (two_arch_merged
                 [((Some ''Profile'', Some ''x64''), [(''defines'', PList [''W''])]),
                  ((Some ''Profile'', Some ''x86''), [(''defines'', PList [''C''])])]
                 [((None, Some ''x64''), (None, Some ''x64'')),
                  ((None, Some ''x86''), (None, Some ''x86''))]) None)"
    using t two_arch_run by simp
  show ?thesis using dk two_arch_run two_arch_run_rev l m by blast
qed

end
